theory Spec2Isabelle
  imports Complex_Main
begin

section \<open>Python strings\<close>

text \<open>
  A Python \<open>str\<close> is modelled as a \<open>string\<close> (a list of characters).  The functions
  below are the methods of \<open>str\<close> that \<open>lib/item.py\<close> calls, with Python's results:
  \<open>find\<close> and \<open>rfind\<close> return \<open>-1\<close> when the substring does not occur, slices clamp
  their bounds, \<open>strip\<close> removes the whitespace characters of \<open>str.isspace\<close>.
\<close>

fun startswith :: "string \<Rightarrow> string \<Rightarrow> bool" where
  "startswith s [] = True"
| "startswith [] (p # ps) = False"
| "startswith (c # cs) (p # ps) = (c = p \<and> startswith cs ps)"

fun find_from :: "string \<Rightarrow> string \<Rightarrow> int \<Rightarrow> int" where
  "find_from [] sub i = (if sub = [] then i else - 1)"
| "find_from (c # cs) sub i = (if startswith (c # cs) sub then i else find_from cs sub (i + 1))"

definition py_find :: "string \<Rightarrow> string \<Rightarrow> int" where
  "py_find s sub = find_from s sub 0"

fun rfind_from :: "string \<Rightarrow> string \<Rightarrow> int \<Rightarrow> int \<Rightarrow> int" where
  "rfind_from [] sub i best = (if sub = [] then i else best)"
| "rfind_from (c # cs) sub i best =
     rfind_from cs sub (i + 1) (if startswith (c # cs) sub then i else best)"

definition py_rfind :: "string \<Rightarrow> string \<Rightarrow> int" where
  "py_rfind s sub = rfind_from s sub 0 (- 1)"

definition slice_index :: "string \<Rightarrow> int \<Rightarrow> nat" where
  "slice_index s i = (if i < 0 then nat (int (length s) + i) else nat i)"

definition py_upto :: "string \<Rightarrow> int \<Rightarrow> string" where
  \<comment> \<open>\<open>s[:i]\<close>\<close>
  "py_upto s i = take (slice_index s i) s"

definition py_from :: "string \<Rightarrow> int \<Rightarrow> string" where
  \<comment> \<open>\<open>s[i:]\<close>\<close>
  "py_from s i = drop (slice_index s i) s"

definition py_isspace :: "char \<Rightarrow> bool" where
  "py_isspace c = ((of_char c :: nat) \<in> {9, 10, 11, 12, 13, 28, 29, 30, 31, 32, 133, 160})"

definition py_lstrip :: "string \<Rightarrow> string" where
  "py_lstrip s = dropWhile py_isspace s"

definition py_rstrip :: "string \<Rightarrow> string" where
  "py_rstrip s = rev (dropWhile py_isspace (rev s))"

definition py_strip :: "string \<Rightarrow> string" where
  "py_strip s = py_rstrip (py_lstrip s)"

text \<open>
  \<open>s.replace(old, new)\<close> replaces the occurrences of \<open>old\<close> from left to right without
  overlap.  The counter is the number of characters of a matched occurrence that are
  still to be skipped.  With an empty \<open>old\<close> Python puts \<open>new\<close> before every character
  and at the end.
\<close>

fun replace_skip :: "string \<Rightarrow> string \<Rightarrow> nat \<Rightarrow> string \<Rightarrow> string" where
  "replace_skip old new k [] = []"
| "replace_skip old new (Suc k) (c # cs) = replace_skip old new k cs"
| "replace_skip old new 0 (c # cs) =
     (if startswith (c # cs) old then new @ replace_skip old new (length old - 1) cs
      else c # replace_skip old new 0 cs)"

definition py_replace :: "string \<Rightarrow> string \<Rightarrow> string \<Rightarrow> string" where
  "py_replace s old new =
     (if old = [] then new @ concat (map (\<lambda>c. c # new) s) else replace_skip old new 0 s)"

section \<open>Log records\<close>

datatype level = DEBUG | INFO | WARNING | ERROR

text \<open>A log record: the level and the place in \<open>lib/item.py\<close> that wrote it.\<close>

type_synonym log = "level \<times> string"

section \<open>Relative item paths: \<open>Item.get_absolutepath\<close>\<close>

text \<open>
  The \<open>while\<close> loop of \<open>get_absolutepath\<close>: every leading dot of \<open>relpath\<close> is removed,
  and every dot that is followed by another dot walks \<open>rootpath\<close> one level up.  The
  result is the remaining relative path, the root path reached and the log records.
\<close>

fun walk_up :: "string \<Rightarrow> string \<Rightarrow> log list \<Rightarrow> string \<times> string \<times> log list" where
  "walk_up [] rootpath lg = ([], rootpath, lg)"
| "walk_up (c # relpath) rootpath lg =
     (if c \<noteq> CHR ''.'' then (c # relpath, rootpath, lg)
      else if relpath \<noteq> [] \<and> hd relpath = CHR ''.'' then
        (if py_rfind rootpath ''.'' = - 1 then
           (if rootpath = [] then walk_up [] rootpath (lg @ [(ERROR, ''get_absolutepath: above root level'')])
            else walk_up relpath [] lg)
         else walk_up relpath (py_upto rootpath (py_rfind rootpath ''.'')) lg)
      else walk_up relpath rootpath lg)"

definition expand_relative :: "string \<Rightarrow> string \<Rightarrow> string \<times> log list" where
  \<comment> \<open>lines 729 to 748: the path reached before the \<open>self\<close> segments are removed\<close>
  "expand_relative path relativepath =
     (case walk_up (py_rstrip relativepath) path [] of
        (relpath, rootpath, lg) \<Rightarrow>
          (if relpath \<noteq> [] then
             (if rootpath \<noteq> [] then (rootpath @ ''.'' @ relpath, lg) else (relpath, lg))
           else (rootpath, lg)))"

definition remove_self :: "string \<Rightarrow> string" where
  \<comment> \<open>lines 750 to 752\<close>
  "remove_self rootpath =
     py_replace
       (if py_from rootpath (- 5) = ''.self'' then py_replace rootpath ''.self'' [] else rootpath)
       ''.self.'' ''.''"

definition get_absolutepath :: "string \<Rightarrow> string \<Rightarrow> string \<times> log list" where
  "get_absolutepath path relativepath =
     (if relativepath = [] \<or> hd relativepath \<noteq> CHR ''.'' then (relativepath, [])
      else
        (case expand_relative path relativepath of
           (rootpath, lg) \<Rightarrow>
             (remove_self rootpath, lg @ [(INFO, ''get_absolutepath: result'')])))"

section \<open>Destination and expression of a rule: \<open>Item._split_destitem_from_value\<close>\<close>

definition split_destitem_from_value :: "string \<Rightarrow> string \<times> string" where
  "split_destitem_from_value v =
     (if py_find v ''='' \<noteq> - 1 then
        (if py_find v ''=='' \<noteq> - 1 then
           (if py_find v ''='' < py_find v ''=='' then
              (py_strip (py_upto v (py_find v ''='')), py_strip (py_from v (py_find v ''='' + 1)))
            else ([], v))
         else (py_upto v (py_find v ''=''), py_strip (py_from v (py_find v ''='' + 1))))
      else ([], v))"

text \<open>
  The rule as the specification words it: an \<open>=\<close> that is not part of \<open>==\<close> is one with no
  \<open>=\<close> directly before or after it; the destination is everything before the first such
  \<open>=\<close>, the expression everything after it, and without one the destination is empty and
  the whole string is the expression.
\<close>

definition bare_eq :: "string \<Rightarrow> nat \<Rightarrow> bool" where
  "bare_eq s i =
     (i < length s \<and> s ! i = CHR ''=''
      \<and> \<not> (Suc i < length s \<and> s ! Suc i = CHR ''='')
      \<and> \<not> (0 < i \<and> s ! (i - 1) = CHR ''=''))"

definition first_bare_eq :: "string \<Rightarrow> nat option" where
  "first_bare_eq s = List.find (bare_eq s) [0..<length s]"

definition spec_split_destitem :: "string \<Rightarrow> string \<times> string" where
  "spec_split_destitem s =
     (case first_bare_eq s of
        Some i \<Rightarrow> (take i s, drop (Suc i) s)
      | None \<Rightarrow> ([], s))"

section \<open>Python values\<close>

text \<open>
  The values an item holds and receives.  A \<open>float\<close> is given by the rational number it
  denotes, which is exact for the comparisons of the code (Python compares \<open>int\<close> and
  \<open>float\<close> by value); not-a-number and the infinities are outside the model.  A \<open>dict\<close>
  is the list of its entries in a fixed order of the keys, so that equal dicts have the
  same list of keys.
\<close>

datatype pyval = PNone | PBool bool | PInt int | PFloat rat | PStr string
  | PList "pyval list" | PDict "(string \<times> pyval) list"

text \<open>
  The exceptions of the code: the built-in ones it meets, and \<open>Exception\<close> with the name
  of its class for any other one that the evaluation of an expression raises.
\<close>

datatype exc = TypeError | ValueError | AttributeError | KeyError | OverflowError | Exception string

fun num_val :: "pyval \<Rightarrow> rat option" where
  "num_val (PBool b) = Some (if b then 1 else 0)"
| "num_val (PInt i) = Some (of_int i)"
| "num_val (PFloat r) = Some r"
| "num_val v = None"

text \<open>\<open>a == b\<close>: numbers (and booleans) by value, containers element by element.\<close>

fun py_eq :: "pyval \<Rightarrow> pyval \<Rightarrow> bool"
  and py_eq_list :: "pyval list \<Rightarrow> pyval list \<Rightarrow> bool"
  and py_eq_items :: "(string \<times> pyval) list \<Rightarrow> (string \<times> pyval) list \<Rightarrow> bool" where
  "py_eq PNone b = (b = PNone)"
| "py_eq (PBool x) b = (num_val b = Some (if x then 1 else 0))"
| "py_eq (PInt i) b = (num_val b = Some (of_int i))"
| "py_eq (PFloat r) b = (num_val b = Some r)"
| "py_eq (PStr s) b = (b = PStr s)"
| "py_eq (PList xs) b = (case b of PList ys \<Rightarrow> py_eq_list xs ys | _ \<Rightarrow> False)"
| "py_eq (PDict xs) b = (case b of PDict ys \<Rightarrow> py_eq_items xs ys | _ \<Rightarrow> False)"
| "py_eq_list [] ys = (ys = [])"
| "py_eq_list (x # xs) ys =
     (case ys of [] \<Rightarrow> False | y # ys' \<Rightarrow> py_eq x y \<and> py_eq_list xs ys')"
| "py_eq_items [] ys = (ys = [])"
| "py_eq_items (kv # xs) ys =
     (case ys of [] \<Rightarrow> False
      | kv' # ys' \<Rightarrow> fst kv = fst kv' \<and> py_eq (snd kv) (snd kv') \<and> py_eq_items xs ys')"

text \<open>
  \<open>v <= t\<close>, \<open>v >= t\<close>, \<open>v < t\<close> and \<open>v > t\<close> against a \<open>float\<close>: a \<open>TypeError\<close> (the result
  \<open>None\<close>) unless \<open>v\<close> is a number.
\<close>

definition py_le :: "pyval \<Rightarrow> rat \<Rightarrow> bool option" where
  "py_le v t = map_option (\<lambda>x. x \<le> t) (num_val v)"

definition py_ge :: "pyval \<Rightarrow> rat \<Rightarrow> bool option" where
  "py_ge v t = map_option (\<lambda>x. t \<le> x) (num_val v)"

definition py_lt :: "pyval \<Rightarrow> rat \<Rightarrow> bool option" where
  "py_lt v t = map_option (\<lambda>x. x < t) (num_val v)"

definition py_gt :: "pyval \<Rightarrow> rat \<Rightarrow> bool option" where
  "py_gt v t = map_option (\<lambda>x. t < x) (num_val v)"

text \<open>
  \<open>a + b\<close> and \<open>a - b\<close> on numbers: an \<open>int\<close> when neither operand is a \<open>float\<close>.  The sum
  of floats is the exact sum (the model's floats do not round).  The result \<open>None\<close>
  stands for the operand pairs that \<open>_fadejob\<close> cannot compare with its destination.
\<close>

fun int_val :: "pyval \<Rightarrow> int option" where
  "int_val (PBool b) = Some (if b then 1 else 0)"
| "int_val (PInt i) = Some i"
| "int_val v = None"

definition py_arith ::
  "(int \<Rightarrow> int \<Rightarrow> int) \<Rightarrow> (rat \<Rightarrow> rat \<Rightarrow> rat) \<Rightarrow> pyval \<Rightarrow> pyval \<Rightarrow> pyval option" where
  "py_arith fi fr a b =
     (case (int_val a, int_val b) of
        (Some i, Some j) \<Rightarrow> Some (PInt (fi i j))
      | _ \<Rightarrow>
        (case (num_val a, num_val b) of
           (Some x, Some y) \<Rightarrow> Some (PFloat (fr x y))
         | _ \<Rightarrow> None))"

definition py_add :: "pyval \<Rightarrow> pyval \<Rightarrow> pyval option" where
  "py_add = py_arith (+) (+)"

definition py_sub :: "pyval \<Rightarrow> pyval \<Rightarrow> pyval option" where
  "py_sub = py_arith (-) (-)"

definition py_lower_char :: "char \<Rightarrow> char" where
  "py_lower_char c =
     (let n = (of_char c :: nat)
      in if (65 \<le> n \<and> n \<le> 90) \<or> (192 \<le> n \<and> n \<le> 222 \<and> n \<noteq> 215) then char_of (n + 32) else c)"

definition py_lower :: "string \<Rightarrow> string" where
  "py_lower s = map py_lower_char s"

section \<open>Items\<close>

text \<open>The item types of \<open>ITEM_DEFAULTS\<close>: str, num, bool, list, dict, foo and scene.\<close>

datatype item_type = TStr | TNum | TBool | TList | TDict | TFoo | TScene

text \<open>
  \<open>_autotimer\<close>: the pair of time and value, the compatibility mode, and the paths of the
  items the time and the value are read from at every re-arm (if any).
\<close>

record autotimer =
  at_time :: pyval
  at_value :: pyval
  at_compat :: string
  at_timeitem :: "string option"
  at_valueitem :: "string option"

text \<open>
  The attributes of an \<open>Item\<close> that \<open>__call__\<close>, \<open>__update\<close> and \<open>_fadejob\<close> read or
  write.  The rules are the two lists \<open>_on_update_dest_var\<close> and \<open>_on_update\<close> (and the
  same for \<open>on_change\<close>), zipped when they run.  Methods and logics are callbacks of the
  plugins and of the logic scheduler, known here by a number.  \<open>_items_to_trigger\<close> holds
  the paths of the dependent items.  Times are seconds.
\<close>

record item =
  path :: string
  type :: item_type
  "value" :: pyval
  prev_value :: pyval
  last_change :: rat
  prev_change :: rat
  last_update :: rat
  prev_update :: rat
  changed_by :: string
  updated_by :: string
  fading :: bool
  enforce_updates :: bool
  eval :: "string option"
  on_update :: "string list"
  on_update_dest_var :: "string list"
  on_change :: "string list"
  on_change_dest_var :: "string list"
  change_logger :: level
  log_change_logger :: bool
  methods_to_trigger :: "nat list"
  logics_to_trigger :: "nat list"
  threshold :: bool
  th_crossed :: bool
  th_low :: rat
  th_high :: rat
  items_to_trigger :: "string list"
  cache :: "string option"
  autotimer :: "autotimer option"

subsection \<open>The items of the process and what a call does to the outside\<close>

text \<open>
  What a call does to its collaborators, in the order it does it: log records, the
  \<open>notify_all\<close> on the lock of the item, the run of a rule (\<open>_run_on_xxx\<close> entered for an
  item, an attribute, a destination and an expression), the update of a destination item
  by a rule (with everything that update did in turn), a call of the item by the fade job
  (with everything the call did), a method callback, a logic trigger, the dispatch of a
  dependent item or of the own \<open>eval\<close> to \<open>sh.trigger\<close>, a write of the cache file and a
  job given to the scheduler (name, value, caller and time).
\<close>

datatype event =
    Log level string
  | NotifyAll string
  | RuleRun string string string string
  | UpdateCall string pyval string "string option" "event list"
  | ItemCall string pyval string "event list"
  | MethodCall nat string string "string option" "string option"
  | LogicTrigger nat string pyval
  | Trigger string pyval string "string option" "string option"
  | CacheWrite string pyval
  | SchedulerAdd string pyval string rat

text \<open>
  The registry of \<open>Items\<close> (\<open>return_item\<close>: the item of a path, if any) with the state of
  every item, and the number of clock readings taken so far.
\<close>

record world =
  items :: "string \<Rightarrow> item option"
  tick :: nat

subsection \<open>The surroundings\<close>

text \<open>
  What the code takes from outside: the built-ins \<open>int\<close> and \<open>float\<close> on a \<open>str\<close> and
  \<open>json.loads\<close> (\<open>None\<close> when they raise); \<open>eval\<close> on the expression of a rule, given the
  items, the path of the item, the expression and the value bound to \<open>value\<close> (its result
  or the exception it raises, the items as the evaluation leaves them and what it does:
  an expression may call items); whether a method callback raises; whether writing
  the cache file fails; the clock \<open>shtime.now()\<close> (its successive readings);
  \<open>t + datetime.timedelta(seconds=s)\<close> for a reading \<open>t\<close> of the clock and a number \<open>s\<close>
  (\<open>None\<close> when it raises \<open>OverflowError\<close>); and the constant \<open>ATTRIB_COMPAT_LATEST\<close> of
  \<open>lib.constants\<close>.  The callbacks read the items and do not write them.
\<close>

record env =
  py_int_str :: "string \<Rightarrow> int option"
  py_float_str :: "string \<Rightarrow> rat option"
  json_loads :: "string \<Rightarrow> pyval option"
  py_eval :: "world \<Rightarrow> string \<Rightarrow> string \<Rightarrow> pyval \<Rightarrow> (exc + pyval) \<times> world \<times> event list"
  method_raises :: "nat \<Rightarrow> item \<Rightarrow> string \<Rightarrow> bool"
  cache_write_fails :: "string \<Rightarrow> pyval \<Rightarrow> bool"
  clock :: "nat \<Rightarrow> rat"
  time_after :: "rat \<Rightarrow> rat \<Rightarrow> rat option"
  compat_latest :: string

section \<open>Casting a value to the type of an item\<close>

definition cast_str :: "pyval \<Rightarrow> exc + pyval" where
  "cast_str v = (case v of PStr s \<Rightarrow> Inr v | _ \<Rightarrow> Inl ValueError)"

definition loads_twice :: "env \<Rightarrow> pyval \<Rightarrow> exc + pyval" where
  \<comment> \<open>\<open>json.loads\<close>, and once more with double quotes for single quotes\<close>
  "loads_twice e v =
     (case v of
        PStr s \<Rightarrow>
          (case json_loads e s of
             Some x \<Rightarrow> Inr x
           | None \<Rightarrow>
             (case json_loads e (py_replace s [CHR 0x27] [CHR 0x22]) of
                Some x \<Rightarrow> Inr x
              | None \<Rightarrow> Inl ValueError))
      | _ \<Rightarrow> Inr v)"

definition cast_list :: "env \<Rightarrow> pyval \<Rightarrow> exc + pyval" where
  "cast_list e v =
     (case loads_twice e v of
        Inl x \<Rightarrow> Inl x
      | Inr (PList xs) \<Rightarrow> Inr (PList xs)
      | Inr _ \<Rightarrow> Inl ValueError)"

definition cast_dict :: "env \<Rightarrow> pyval \<Rightarrow> exc + pyval" where
  "cast_dict e v =
     (case loads_twice e v of
        Inl x \<Rightarrow> Inl x
      | Inr (PDict xs) \<Rightarrow> Inr (PDict xs)
      | Inr _ \<Rightarrow> Inl ValueError)"

definition cast_foo :: "pyval \<Rightarrow> exc + pyval" where
  "cast_foo v = Inr v"

definition cast_bool :: "pyval \<Rightarrow> exc + pyval" where
  "cast_bool v =
     (case v of
        PStr s \<Rightarrow>
          (if py_lower s \<in> {''0'', ''false'', ''no'', ''off'', []} then Inr (PBool False)
           else if py_lower s \<in> {''1'', ''true'', ''yes'', ''on''} then Inr (PBool True)
           else Inl ValueError)
      | PNone \<Rightarrow> Inl TypeError
      | PList xs \<Rightarrow> Inl TypeError
      | PDict xs \<Rightarrow> Inl TypeError
      | _ \<Rightarrow>
          (if num_val v = Some 0 then Inr (PBool False)
           else if num_val v = Some 1 then Inr (PBool True)
           else Inl ValueError))"

text \<open>\<open>int(v)\<close>: a \<open>float\<close> is truncated towards zero.\<close>

definition py_int :: "env \<Rightarrow> pyval \<Rightarrow> exc + int" where
  "py_int e v =
     (case v of
        PStr s \<Rightarrow> (case py_int_str e s of Some i \<Rightarrow> Inr i | None \<Rightarrow> Inl ValueError)
      | PInt i \<Rightarrow> Inr i
      | PBool b \<Rightarrow> Inr (if b then 1 else 0)
      | PFloat r \<Rightarrow> Inr (if 0 \<le> r then \<lfloor>r\<rfloor> else \<lceil>r\<rceil>)
      | _ \<Rightarrow> Inl TypeError)"

definition cast_scene :: "env \<Rightarrow> pyval \<Rightarrow> exc + pyval" where
  "cast_scene e v = (case py_int e v of Inl x \<Rightarrow> Inl x | Inr i \<Rightarrow> Inr (PInt i))"

definition cast_num :: "env \<Rightarrow> pyval \<Rightarrow> exc + pyval" where
  "cast_num e v0 =
     (let v = (case v0 of PStr s \<Rightarrow> PStr (py_strip s) | _ \<Rightarrow> v0)
      in if v = PStr [] then Inr (PInt 0)
         else
           (case v of
              PFloat r \<Rightarrow> Inr v
            | _ \<Rightarrow>
              (case py_int e v of
                 Inr i \<Rightarrow> Inr (PInt i)
               | Inl _ \<Rightarrow>
                 (case v of
                    PStr s \<Rightarrow>
                      (case py_float_str e s of Some r \<Rightarrow> Inr (PFloat r) | None \<Rightarrow> Inl ValueError)
                  | _ \<Rightarrow> Inl ValueError))))"

fun cast :: "env \<Rightarrow> item_type \<Rightarrow> pyval \<Rightarrow> exc + pyval" where
  "cast e TStr v = cast_str v"
| "cast e TNum v = cast_num e v"
| "cast e TBool v = cast_bool v"
| "cast e TList v = cast_list e v"
| "cast e TDict v = cast_dict e v"
| "cast e TFoo v = cast_foo v"
| "cast e TScene v = cast_scene e v"

section \<open>Clock, registry and the sequence of statements\<close>

definition now :: "env \<Rightarrow> world \<Rightarrow> rat \<times> world" where
  "now e w = (clock e (tick w), w\<lparr>tick := Suc (tick w)\<rparr>)"

definition put :: "string \<Rightarrow> item \<Rightarrow> world \<Rightarrow> world" where
  "put p it w = w\<lparr>items := (items w)(p \<mapsto> it)\<rparr>"

text \<open>
  The outcome of a call: the exception that left it (if any), the items as the call left
  them, and what it did.  A call may not return at all (rules that update each other
  for ever); then there is no outcome.
\<close>

type_synonym outcome = "exc option \<times> world \<times> event list"

type_synonym updater =
  "string \<Rightarrow> pyval \<Rightarrow> string \<Rightarrow> string option \<Rightarrow> string option \<Rightarrow> world \<Rightarrow> outcome option"

text \<open>One statement after another: an exception or a call that does not return ends both.\<close>

definition seq :: "outcome option \<Rightarrow> (world \<Rightarrow> outcome option) \<Rightarrow> outcome option" where
  "seq r f =
     (case r of
        None \<Rightarrow> None
      | Some (Some x, w, evs) \<Rightarrow> Some (Some x, w, evs)
      | Some (None, w, evs) \<Rightarrow>
          (case f w of
             None \<Rightarrow> None
           | Some (x', w', evs') \<Rightarrow> Some (x', w', evs @ evs')))"

text \<open>\<open>"{0}:{1}".format(caller, source)\<close> for a source that is \<open>None\<close> or a \<open>str\<close>.\<close>

definition provenance :: "string \<Rightarrow> string option \<Rightarrow> string" where
  "provenance caller source = caller @ '':'' @ (case source of None \<Rightarrow> ''None'' | Some s \<Rightarrow> s)"

section \<open>\<open>Item.__update\<close>\<close>

text \<open>
  Lines 1007 to 1029, under the lock: the provenance of the update, and when the value
  differs from the value of the item, the change itself.  The result tells whether the
  value changed.
\<close>

definition commit ::
  "env \<Rightarrow> string \<Rightarrow> pyval \<Rightarrow> string \<Rightarrow> string option \<Rightarrow> world \<Rightarrow> bool \<times> world \<times> event list" where
  "commit e p v caller source w =
     (case items w p of
        None \<Rightarrow> (False, w, [])
      | Some it \<Rightarrow>
          (let it1 = it\<lparr>updated_by := provenance caller source\<rparr>
           in if \<not> py_eq v (value it1) then
                (case now e w of
                   (t, w1) \<Rightarrow>
                     (let it2 = it1\<lparr>prev_value := value it1, value := v,
                                    prev_change := last_change it1, last_change := t,
                                    changed_by := provenance caller source\<rparr>
                      in if caller \<noteq> ''fader'' then
                           (True, put p (it2\<lparr>fading := False\<rparr>) w1,
                            [NotifyAll p, Log (change_logger it) ''__update: item change'']
                            @ (if log_change_logger it then [Log INFO ''__update: Item Change''] else []))
                         else (True, put p it2 w1, [])))
              else (False, put p it1 w, [])))"

text \<open>
  \<open>_run_on_xxx\<close> for one rule.  The expression is evaluated under \<open>try\<close>; an exception
  is logged.  For a result other than \<open>None\<close>, the destination item is updated (the call
  \<open>upd\<close>), or, without a destination, the expression is evaluated once more, outside the
  \<open>try\<close>.  An exception that leaves the update of the destination or the second
  evaluation is not caught here.
\<close>

definition rule_entered :: "string \<Rightarrow> string \<Rightarrow> string \<Rightarrow> string \<Rightarrow> event list" where
  \<comment> \<open>lines 944 to 946: the rule is entered and logged\<close>
  "rule_entered p attr on_dest on_eval =
     (if p = ''wohnung.flur.szenen_helper'' then [Log INFO ''_run_on_xxx: item''] else [])
     @ [RuleRun p attr on_dest on_eval, Log INFO ''_run_on_xxx: evaluating'']"

definition run_on_xxx ::
  "updater \<Rightarrow> env \<Rightarrow> string \<Rightarrow> pyval \<Rightarrow> string \<Rightarrow> string \<Rightarrow> string \<Rightarrow> world \<Rightarrow> outcome option" where
  "run_on_xxx upd e p v on_dest on_eval attr w =
     (case py_eval e w p on_eval v of
        (Inl x, w1, evs) \<Rightarrow>
          Some (None, w1,
            rule_entered p attr on_dest on_eval @ evs @ [Log WARNING ''_run_on_xxx: problem evaluating''])
      | (Inr dest_value, w1, evs) \<Rightarrow>
          (if dest_value \<noteq> PNone then
             (if on_dest \<noteq> [] then
                (case items w1 on_dest of
                   Some dest_item \<Rightarrow>
                     (case upd on_dest dest_value attr (Some p) None w1 of
                        None \<Rightarrow> None
                      | Some (x, w', evs') \<Rightarrow>
                          Some (x, w',
                            rule_entered p attr on_dest on_eval @ evs
                            @ [UpdateCall on_dest dest_value attr (Some p) evs']
                            @ (if x = None then [Log DEBUG ''_run_on_xxx: finally evaluating''] else [])))
                 | None \<Rightarrow>
                     Some (None, w1,
                       rule_entered p attr on_dest on_eval @ evs
                       @ [Log ERROR ''_run_on_xxx: has not found dest_item'']))
              else
                (case py_eval e w1 p on_eval v of
                   (Inl x, w2, evs2) \<Rightarrow> Some (Some x, w2, rule_entered p attr on_dest on_eval @ evs @ evs2)
                 | (Inr dummy, w2, evs2) \<Rightarrow>
                     Some (None, w2,
                       rule_entered p attr on_dest on_eval @ evs @ evs2
                       @ [Log DEBUG ''_run_on_xxx: finally evaluating''])))
           else
             Some (None, w1, rule_entered p attr on_dest on_eval @ evs @ [Log DEBUG ''_run_on_xxx: not set''])))"

text \<open>The loop of \<open>__run_on_update\<close> and of \<open>__run_on_change\<close> over the zipped lists.\<close>

fun run_rules ::
  "updater \<Rightarrow> env \<Rightarrow> string \<Rightarrow> pyval \<Rightarrow> string \<Rightarrow> (string \<times> string) list \<Rightarrow> world \<Rightarrow> outcome option" where
  "run_rules upd e p v attr [] w = Some (None, w, [])"
| "run_rules upd e p v attr (r # rs) w =
     seq (run_on_xxx upd e p v (fst r) (snd r) attr w) (run_rules upd e p v attr rs)"

definition rules_of :: "string list \<Rightarrow> string list \<Rightarrow> (string \<times> string) list" where
  \<comment> \<open>\<open>if self._on_update: for dest, expr in zip(self._on_update_dest_var, self._on_update)\<close>\<close>
  "rules_of dest_var exprs = (if exprs = [] then [] else zip dest_var exprs)"

definition run_on_update :: "updater \<Rightarrow> env \<Rightarrow> string \<Rightarrow> pyval \<Rightarrow> world \<Rightarrow> outcome option" where
  "run_on_update upd e p v w =
     (case items w p of
        None \<Rightarrow> Some (None, w, [])
      | Some it \<Rightarrow>
          run_rules upd e p v ''on_update'' (rules_of (on_update_dest_var it) (on_update it)) w)"

definition run_on_change :: "updater \<Rightarrow> env \<Rightarrow> string \<Rightarrow> pyval \<Rightarrow> world \<Rightarrow> outcome option" where
  "run_on_change upd e p v w =
     (case items w p of
        None \<Rightarrow> Some (None, w, [])
      | Some it \<Rightarrow>
          run_rules upd e p v ''on_change'' (rules_of (on_change_dest_var it) (on_change it)) w)"

text \<open>Lines 1037 to 1041: every method is called; one that raises is logged.\<close>

definition run_methods ::
  "env \<Rightarrow> string \<Rightarrow> string \<Rightarrow> string option \<Rightarrow> string option \<Rightarrow> world \<Rightarrow> outcome option" where
  "run_methods e p caller source dest w =
     (case items w p of
        None \<Rightarrow> Some (None, w, [])
      | Some it \<Rightarrow>
          Some (None, w,
            concat (map (\<lambda>m. MethodCall m p caller source dest
                              # (if method_raises e m it caller then [Log ERROR ''__update: problem running method''] else []))
                        (methods_to_trigger it))))"

definition trigger_logics :: "item \<Rightarrow> event list" where
  "trigger_logics it = map (\<lambda>l. LogicTrigger l (path it) (value it)) (logics_to_trigger it)"

text \<open>
  Lines 1042 to 1050.  The comparison of the value with a threshold raises \<open>TypeError\<close>
  when the value is not a number; nothing catches it.
\<close>

definition run_logics :: "string \<Rightarrow> world \<Rightarrow> outcome option" where
  "run_logics p w =
     (case items w p of
        None \<Rightarrow> Some (None, w, [])
      | Some it \<Rightarrow>
          (if threshold it \<and> logics_to_trigger it \<noteq> [] then
             (if th_crossed it then
                (case py_le (value it) (th_low it) of
                   None \<Rightarrow> Some (Some TypeError, w, [])
                 | Some True \<Rightarrow> Some (None, put p (it\<lparr>th_crossed := False\<rparr>) w, trigger_logics it)
                 | Some False \<Rightarrow> Some (None, w, []))
              else
                (case py_ge (value it) (th_high it) of
                   None \<Rightarrow> Some (Some TypeError, w, [])
                 | Some True \<Rightarrow> Some (None, put p (it\<lparr>th_crossed := True\<rparr>) w, trigger_logics it)
                 | Some False \<Rightarrow> Some (None, w, [])))
           else if logics_to_trigger it \<noteq> [] then Some (None, w, trigger_logics it)
           else Some (None, w, [])))"

text \<open>Lines 1051 to 1053: the dependent items are handed to \<open>sh.trigger\<close>.\<close>

definition run_dependents ::
  "string \<Rightarrow> pyval \<Rightarrow> string \<Rightarrow> string option \<Rightarrow> string option \<Rightarrow> world \<Rightarrow> outcome option" where
  "run_dependents p v caller source dest w =
     (case items w p of
        None \<Rightarrow> Some (None, w, [])
      | Some it \<Rightarrow> Some (None, w, map (\<lambda>q. Trigger q v caller source dest) (items_to_trigger it)))"

text \<open>Lines 1032 to 1053: what is done for a change, an enforced update or a scene.\<close>

definition change_path ::
  "updater \<Rightarrow> env \<Rightarrow> string \<Rightarrow> pyval \<Rightarrow> string \<Rightarrow> string option \<Rightarrow> string option \<Rightarrow> bool \<Rightarrow> world
     \<Rightarrow> outcome option" where
  "change_path upd e p v caller source dest changed w =
     (case items w p of
        None \<Rightarrow> Some (None, w, [])
      | Some it \<Rightarrow>
          (if changed \<or> enforce_updates it \<or> type it = TScene then
             (case now e w of
                (t, w1) \<Rightarrow>
                  seq (run_on_change upd e p v (put p (it\<lparr>prev_update := last_update it, last_update := t\<rparr>) w1))
                    (\<lambda>w2. seq (run_methods e p caller source dest w2)
                       (\<lambda>w3. seq (run_logics p w3) (run_dependents p v caller source dest))))
           else Some (None, w, [])))"

text \<open>Lines 1054 to 1058: the cache is written for a change of an item that is not fading.\<close>

definition write_cache :: "env \<Rightarrow> string \<Rightarrow> bool \<Rightarrow> world \<Rightarrow> outcome option" where
  "write_cache e p changed w =
     (case items w p of
        None \<Rightarrow> Some (None, w, [])
      | Some it \<Rightarrow>
          (case cache it of
             None \<Rightarrow> Some (None, w, [])
           | Some file \<Rightarrow>
               (if changed \<and> file \<noteq> [] \<and> \<not> fading it then
                  Some (None, w,
                    CacheWrite file (value it)
                    # (if cache_write_fails e file (value it) then [Log WARNING ''cache: could not write''] else []))
                else Some (None, w, []))))"

text \<open>
  \<open>_castvalue_to_itemtype\<close>: with the compatibility mode \<open>latest\<close> the value is cast to the
  type of the item; a value that does not cast becomes an empty list, an empty dict or
  the cast of the empty string, and that last cast may raise.
\<close>

definition castvalue_to_itemtype :: "env \<Rightarrow> item \<Rightarrow> pyval \<Rightarrow> string \<Rightarrow> (exc + pyval) \<times> event list" where
  "castvalue_to_itemtype e it v cmpt =
     (if cmpt = compat_latest e then
        (case cast e (type it) v of
           Inr v' \<Rightarrow> (Inr v', [])
         | Inl x \<Rightarrow>
             (case v of
                PList xs \<Rightarrow> (Inr (PList []), [Log WARNING ''_castvalue_to_itemtype: unable to cast''])
              | PDict xs \<Rightarrow> (Inr (PDict []), [Log WARNING ''_castvalue_to_itemtype: unable to cast''])
              | _ \<Rightarrow> (cast e (type it) (PStr []), [Log WARNING ''_castvalue_to_itemtype: unable to cast''])))
      else (Inr v, []))"

text \<open>
  Lines 1059 to 1076.  The time and the value are read from their source items when the
  autotimer names them (a source that does not exist is logged, and the last time or value
  stands); \<open>datetime.timedelta(seconds=_time)\<close> raises \<open>TypeError\<close> for a time that is not
  a number, and it or the sum with the time of the clock raises \<open>OverflowError\<close> for a
  time that is out of range.
\<close>

definition autotimer_source :: "string option \<Rightarrow> string option" where
  "autotimer_source src = (case src of None \<Rightarrow> None | Some q \<Rightarrow> if q = [] then None else Some q)"

definition rearm_autotimer :: "env \<Rightarrow> string \<Rightarrow> string \<Rightarrow> world \<Rightarrow> outcome option" where
  "rearm_autotimer e p caller w =
     (case items w p of
        None \<Rightarrow> Some (None, w, [])
      | Some it \<Rightarrow>
          (case autotimer it of
             None \<Rightarrow> Some (None, w, [])
           | Some atm \<Rightarrow>
               (if caller \<noteq> ''Autotimer'' \<and> \<not> fading it then
                  (let tm = (case autotimer_source (at_timeitem atm) of
                               None \<Rightarrow> (at_time atm, [])
                             | Some q \<Rightarrow>
                                 (case items w q of
                                    Some src \<Rightarrow> (value src, [])
                                  | None \<Rightarrow> (at_time atm, [Log WARNING ''autotimer: item does not exist''])));
                       vl = (case autotimer_source (at_valueitem atm) of
                               None \<Rightarrow> (at_value atm, [])
                             | Some q \<Rightarrow>
                                 (case items w q of
                                    Some src \<Rightarrow>
                                      (case castvalue_to_itemtype e it (value src) (at_compat atm) of
                                         (Inr v', lg) \<Rightarrow> (v', lg)
                                       | (Inl x, lg) \<Rightarrow>
                                           (at_value atm, lg @ [Log WARNING ''autotimer: item does not exist'']))
                                  | None \<Rightarrow> (at_value atm, [Log WARNING ''autotimer: item does not exist''])));
                       w1 = put p (it\<lparr>autotimer := Some (atm\<lparr>at_time := fst tm, at_value := fst vl\<rparr>)\<rparr>) w
                   in (case now e w1 of
                         (t, w2) \<Rightarrow>
                           (case num_val (fst tm) of
                              None \<Rightarrow> Some (Some TypeError, w2, snd tm @ snd vl)
                            | Some secs \<Rightarrow>
                                (case time_after e t secs of
                                   None \<Rightarrow> Some (Some OverflowError, w2, snd tm @ snd vl)
                                 | Some nxt \<Rightarrow>
                                     Some (None, w2,
                                       snd tm @ snd vl
                                       @ [SchedulerAdd (''items.'' @ p @ ''-Timer'') (fst vl) ''Autotimer'' nxt])))))
                else Some (None, w, []))))"

text \<open>
  \<open>__update\<close>.  A value that does not cast to the type of the item is logged and nothing
  else happens.  \<open>upd\<close> is \<open>__update\<close> itself, called by the rules for their destination
  items.
\<close>

definition update_body :: "updater \<Rightarrow> env \<Rightarrow> updater" where
  "update_body upd e p v0 caller source dest w =
     (case items w p of
        None \<Rightarrow> Some (None, w, [])
      | Some it \<Rightarrow>
          (case cast e (type it) v0 of
             Inl x \<Rightarrow> Some (None, w, [Log WARNING ''__update: value does not match type''])
           | Inr v \<Rightarrow>
               (case commit e p v caller source w of
                  (changed, w1, evs) \<Rightarrow>
                    seq (Some (None, w1, evs))
                      (\<lambda>w2. seq (run_on_update upd e p v w2)
                         (\<lambda>w3. seq (change_path upd e p v caller source dest changed w3)
                            (\<lambda>w4. seq (write_cache e p changed w4) (rearm_autotimer e p caller)))))))"

text \<open>
  \<open>__update\<close> with a bound on the depth of the updates that rules make in turn: with the
  bound used up the call has no outcome.
\<close>

primrec update :: "nat \<Rightarrow> env \<Rightarrow> updater" where
  "update 0 e = (\<lambda>p v caller source dest w. None)"
| "update (Suc n) e = update_body (update n e) e"

section \<open>\<open>Item.__call__\<close>\<close>

text \<open>
  The call of an item: the value that is returned, and the outcome.  \<open>PNone\<close> is the
  value \<open>None\<close> of a call without a value.  An item with an \<open>eval\<close> expression hands the
  value to \<open>sh.trigger\<close>; any other item is updated.
\<close>

definition item_call ::
  "nat \<Rightarrow> env \<Rightarrow> string \<Rightarrow> pyval \<Rightarrow> string \<Rightarrow> string option \<Rightarrow> string option \<Rightarrow> world
     \<Rightarrow> (pyval \<times> outcome) option" where
  "item_call n e p v caller source dest w =
     (case items w p of
        None \<Rightarrow> Some (PNone, None, w, [])
      | Some it \<Rightarrow>
          (if v = PNone then Some (value it, None, w, [])
           else if eval it \<noteq> None \<and> eval it \<noteq> Some [] then
             Some (PNone, None, w, [Trigger (p @ ''-eval'') v caller source dest])
           else map_option (Pair PNone) (update n e p v caller source dest w)))"

section \<open>The fade job: \<open>_fadejob\<close>\<close>

text \<open>
  The loops of \<open>_fadejob\<close>, upwards or downwards.  After every step the job waits on the
  lock of the item; \<open>others i\<close> is what the other threads do to the items during the wait
  that follows step \<open>i\<close>.  The first bound counts the steps that are left, the second is
  the bound of \<open>update\<close>.
\<close>

fun fade_steps ::
  "nat \<Rightarrow> nat \<Rightarrow> env \<Rightarrow> (nat \<Rightarrow> world \<Rightarrow> world) \<Rightarrow> bool \<Rightarrow> string \<Rightarrow> rat \<Rightarrow> pyval \<Rightarrow> nat \<Rightarrow> world
     \<Rightarrow> outcome option" where
  "fade_steps 0 n e others up p dest step i w = None"
| "fade_steps (Suc k) n e others up p dest step i w =
     (case items w p of
        None \<Rightarrow> Some (None, w, [])
      | Some it \<Rightarrow>
          (case (if up then py_add (value it) step else py_sub (value it) step) of
             None \<Rightarrow> Some (Some TypeError, w, [])
           | Some nv \<Rightarrow>
               (case (if up then py_lt nv dest else py_gt nv dest) of
                  None \<Rightarrow> Some (Some TypeError, w, [])
                | Some go \<Rightarrow>
                    (if go \<and> fading it then
                       (case item_call n e p nv ''fader'' None None w of
                          None \<Rightarrow> None
                        | Some (ret, Some x, w1, evs) \<Rightarrow> Some (Some x, w1, [ItemCall p nv ''fader'' evs])
                        | Some (ret, None, w1, evs) \<Rightarrow>
                            seq (Some (None, others i w1, [ItemCall p nv ''fader'' evs]))
                              (fade_steps k n e others up p dest step (Suc i)))
                     else Some (None, w, [])))))"

definition fadejob ::
  "nat \<Rightarrow> nat \<Rightarrow> env \<Rightarrow> (nat \<Rightarrow> world \<Rightarrow> world) \<Rightarrow> string \<Rightarrow> rat \<Rightarrow> pyval \<Rightarrow> world \<Rightarrow> outcome option" where
  "fadejob k n e others p dest step w =
     (case items w p of
        None \<Rightarrow> Some (None, w, [])
      | Some it \<Rightarrow>
          (if fading it then Some (None, w, [])
           else
             (case py_lt (value it) dest of
                None \<Rightarrow> Some (Some TypeError, put p (it\<lparr>fading := True\<rparr>) w, [])
              | Some up \<Rightarrow>
                  seq (fade_steps k n e others up p dest step 0 (put p (it\<lparr>fading := True\<rparr>) w))
                    (\<lambda>w1. case items w1 p of
                            None \<Rightarrow> Some (None, w1, [])
                          | Some it1 \<Rightarrow>
                              (if fading it1 then
                                 (case item_call n e p (PFloat dest) ''Fader'' None None
                                         (put p (it1\<lparr>fading := False\<rparr>) w1) of
                                    None \<Rightarrow> None
                                  | Some (ret, x, w2, evs) \<Rightarrow>
                                      Some (x, w2, [ItemCall p (PFloat dest) ''Fader'' evs]))
                               else Some (None, w1, []))))))"

section \<open>Attributes parsed by \<open>Item.__init__\<close>\<close>

definition py_rpartition :: "string \<Rightarrow> string \<Rightarrow> string \<times> string \<times> string" where
  "py_rpartition s sep =
     (if py_rfind s sep = - 1 then ([], [], s)
      else (py_upto s (py_rfind s sep), sep, py_from s (py_rfind s sep + int (length sep))))"

text \<open>
  Lines 442 to 448, the attribute \<open>threshold\<close>: the item with its thresholds set, or the
  \<open>ValueError\<close> of \<open>float\<close> that ends the construction of the item.
\<close>

definition parse_threshold :: "env \<Rightarrow> string \<Rightarrow> item \<Rightarrow> exc + item" where
  "parse_threshold e v it =
     (case py_rpartition v '':'' of
        (low0, sep, high) \<Rightarrow>
          (let low = (if low0 = [] then high else low0)
           in case py_float_str e (py_strip low) of
                None \<Rightarrow> Inl ValueError
              | Some l \<Rightarrow>
                  (case py_float_str e (py_strip high) of
                     None \<Rightarrow> Inl ValueError
                   | Some h \<Rightarrow> Inr (it\<lparr>threshold := True, th_crossed := False, th_low := l, th_high := h\<rparr>))))"

text \<open>
  The parent of an item under construction: the \<open>Items\<close> object for an item of the top
  level (it has neither \<open>conf\<close> nor \<open>return_parent\<close>), or an item with its \<open>conf\<close> and
  its own parent.
\<close>

datatype parent = Items_object | Item_object "string \<Rightarrow> pyval option" parent

definition get_attr_from_parent :: "parent \<Rightarrow> string \<Rightarrow> exc + pyval" where
  "get_attr_from_parent pitem attr =
     (case pitem of
        Items_object \<Rightarrow> Inl AttributeError
      | Item_object pconf gpitem \<Rightarrow>
          (case pconf attr of None \<Rightarrow> Inl KeyError | Some pattr_value \<Rightarrow> Inr pattr_value))"

definition get_attr_from_grandparent :: "parent \<Rightarrow> string \<Rightarrow> exc + pyval" where
  \<comment> \<open>\<open>gpitem = pitem.return_parent()\<close>, then \<open>gpattr_value = pitem.conf[attr]\<close>\<close>
  "get_attr_from_grandparent pitem attr =
     (case pitem of
        Items_object \<Rightarrow> Inl AttributeError
      | Item_object pconf gpitem \<Rightarrow>
          (case pconf attr of None \<Rightarrow> Inl KeyError | Some gpattr_value \<Rightarrow> Inr gpattr_value))"

text \<open>Lines 455 to 460: a plugin specific attribute is stored in \<open>conf\<close>.\<close>

definition plugin_attribute ::
  "parent \<Rightarrow> (string \<Rightarrow> pyval option) \<Rightarrow> string \<Rightarrow> pyval \<Rightarrow> exc + (string \<Rightarrow> pyval option)" where
  "plugin_attribute pitem conf attr v =
     (if v = PStr ''..'' then
        (case get_attr_from_parent pitem attr of Inl x \<Rightarrow> Inl x | Inr a \<Rightarrow> Inr (conf(attr \<mapsto> a)))
      else if v = PStr ''...'' then
        (case get_attr_from_grandparent pitem attr of Inl x \<Rightarrow> Inl x | Inr a \<Rightarrow> Inr (conf(attr \<mapsto> a)))
      else Inr (conf(attr \<mapsto> v)))"

text \<open>
  The attribute of the grandparent as the specification words it: the value that the
  parent of the parent holds for the attribute.
\<close>

definition spec_grandparent_attr :: "parent \<Rightarrow> string \<Rightarrow> pyval option" where
  "spec_grandparent_attr pitem attr =
     (case pitem of
        Item_object pconf (Item_object gpconf ggp) \<Rightarrow> gpconf attr
      | _ \<Rightarrow> None)"

section \<open>What a call did, and what it keeps\<close>

text \<open>
  The rules that a call ran for an attribute (destination and expression, in order), the
  methods and the logics it called, the cache files it wrote and the jobs it gave to the
  scheduler.  The events of the updates that rules made in turn are inside their
  \<open>UpdateCall\<close> and are not counted: these are the doings of the call itself.
\<close>

definition rule_runs :: "string \<Rightarrow> event list \<Rightarrow> (string \<times> string) list" where
  "rule_runs attr evs =
     concat (map (\<lambda>ev. case ev of RuleRun p a d x \<Rightarrow> (if a = attr then [(d, x)] else []) | _ \<Rightarrow> []) evs)"

definition method_calls :: "event list \<Rightarrow> nat list" where
  "method_calls evs = concat (map (\<lambda>ev. case ev of MethodCall m p c s d \<Rightarrow> [m] | _ \<Rightarrow> []) evs)"

definition logic_triggers :: "event list \<Rightarrow> nat list" where
  "logic_triggers evs = concat (map (\<lambda>ev. case ev of LogicTrigger l p v \<Rightarrow> [l] | _ \<Rightarrow> []) evs)"

definition cache_writes :: "event list \<Rightarrow> (string \<times> pyval) list" where
  "cache_writes evs = concat (map (\<lambda>ev. case ev of CacheWrite f v \<Rightarrow> [(f, v)] | _ \<Rightarrow> []) evs)"

definition scheduler_adds :: "event list \<Rightarrow> (string \<times> pyval \<times> string \<times> rat) list" where
  "scheduler_adds evs =
     concat (map (\<lambda>ev. case ev of SchedulerAdd nm v c t \<Rightarrow> [(nm, v, c, t)] | _ \<Rightarrow> []) evs)"

definition dispatches :: "event list \<Rightarrow> string list" where
  "dispatches evs = concat (map (\<lambda>ev. case ev of Trigger nm v c s d \<Rightarrow> [nm] | _ \<Rightarrow> []) evs)"

text \<open>
  What a call did itself to the rules, the subscribers, the cache and the scheduler: its
  events without the log records, the notifications and the calls of other items (whose
  own events are inside them).
\<close>

definition doings :: "event list \<Rightarrow> event list" where
  "doings evs =
     filter (\<lambda>ev. case ev of Log l m \<Rightarrow> False | NotifyAll q \<Rightarrow> False
                     | UpdateCall q v a src es \<Rightarrow> False | ItemCall q v a es \<Rightarrow> False | _ \<Rightarrow> True) evs"

text \<open>
  The configuration of an item: everything but the attributes that \<open>__update\<close> and
  \<open>_fadejob\<close> assign (the value and the previous value, the four times, the provenance,
  the fading flag, the crossed state of the threshold, and the time and value kept in the
  autotimer).
\<close>

definition config_of :: "item \<Rightarrow> item" where
  "config_of it =
     it\<lparr>value := PNone, prev_value := PNone,
        last_change := 0, prev_change := 0, last_update := 0, prev_update := 0,
        changed_by := [], updated_by := [], fading := False, th_crossed := False,
        autotimer := map_option (\<lambda>a. a\<lparr>at_time := PNone, at_value := PNone\<rparr>) (autotimer it)\<rparr>"

definition same_config :: "world \<Rightarrow> world \<Rightarrow> bool" where
  "same_config w w' = (\<forall>q. map_option config_of (items w' q) = map_option config_of (items w q))"

text \<open>
  The expressions of the rules only compute: their evaluation leaves the items as they
  are and does nothing to the outside.
\<close>

definition eval_reads_only :: "env \<Rightarrow> bool" where
  "eval_reads_only e = (\<forall>w p x v. snd (py_eval e w p x v) = (w, []))"

text \<open>No rule of any item has the item \<open>t\<close> as its destination.\<close>

definition no_writer :: "string \<Rightarrow> world \<Rightarrow> bool" where
  "no_writer t w =
     (\<forall>q it. items w q = Some it \<longrightarrow> t \<notin> set (on_update_dest_var it) \<and> t \<notin> set (on_change_dest_var it))"

text \<open>
  A property \<open>Q\<close> of the items is kept by the steps of an update of the item \<open>p\<close> with the
  value \<open>v\<close>: by a reading of the clock, by an assignment to \<open>p\<close> that leaves its
  configuration and either keeps its value or sets it to \<open>v\<close>, and by the update of a
  destination of the rules of \<open>p\<close> with a value other than \<open>None\<close>.
\<close>

definition kept_by_rules :: "(world \<Rightarrow> bool) \<Rightarrow> updater \<Rightarrow> string \<Rightarrow> bool" where
  "kept_by_rules Q upd p =
     (\<forall>w wa it d dv a x w' evs. Q w \<longrightarrow> Q wa \<longrightarrow> items wa p = Some it
        \<longrightarrow> d \<in> set (on_update_dest_var it) \<union> set (on_change_dest_var it) \<longrightarrow> dv \<noteq> PNone
        \<longrightarrow> upd d dv a (Some p) None w = Some (x, w', evs) \<longrightarrow> Q w')"

definition kept_by :: "(world \<Rightarrow> bool) \<Rightarrow> updater \<Rightarrow> string \<Rightarrow> pyval \<Rightarrow> bool" where
  "kept_by Q upd p v =
     ((\<forall>w n. Q w \<longrightarrow> Q (w\<lparr>tick := n\<rparr>))
      \<and> (\<forall>w it it'. Q w \<longrightarrow> items w p = Some it \<longrightarrow> config_of it' = config_of it
            \<longrightarrow> (value it' = value it \<or> value it' = v) \<longrightarrow> Q (put p it' w))
      \<and> kept_by_rules Q upd p)"


text \<open>
  The value \<open>v\<close> crosses a threshold of the item: downwards when the item is in the
  crossed state, upwards when it is not.
\<close>

definition crossing :: "item \<Rightarrow> pyval \<Rightarrow> bool" where
  "crossing it v =
     ((th_crossed it \<and> py_le v (th_low it) = Some True)
      \<or> (\<not> th_crossed it \<and> py_ge v (th_high it) = Some True))"

section \<open>Items and surroundings of the examples\<close>

text \<open>
  A number item with the defaults of \<open>Item.__init__\<close>, and surroundings in which \<open>int\<close>
  and \<open>float\<close> read the strings of decimal digits (as Python does, and as Python they
  raise on the empty string), an expression evaluates when it is \<open>value\<close> or a string of
  decimal digits and raises \<open>NameError\<close> otherwise, no callback raises, the clock counts
  the readings, and a time that is \<open>10 ^ 9\<close> days or more away is out of range.
\<close>

fun digits_val :: "string \<Rightarrow> nat \<Rightarrow> nat option" where
  "digits_val [] acc = Some acc"
| "digits_val (c # cs) acc =
     (if 48 \<le> (of_char c :: nat) \<and> (of_char c :: nat) \<le> 57
      then digits_val cs (10 * acc + ((of_char c :: nat) - 48)) else None)"

definition digits :: "string \<Rightarrow> nat option" where
  "digits s = (if s = [] then None else digits_val s 0)"

definition example_env :: env where
  "example_env =
     \<lparr>py_int_str = (\<lambda>s. map_option int (digits s)),
      py_float_str = (\<lambda>s. map_option of_nat (digits s)),
      json_loads = (\<lambda>s. None),
      py_eval = (\<lambda>w p expr v.
        (if expr = ''value'' then Inr v
         else case digits expr of Some n \<Rightarrow> Inr (PInt (int n)) | None \<Rightarrow> Inl (Exception ''NameError''),
         w, [])),
      method_raises = (\<lambda>m it caller. False),
      cache_write_fails = (\<lambda>file v. False),
      clock = (\<lambda>n. of_nat n),
      time_after = (\<lambda>t s. if \<bar>s\<bar> < 86400 * 10 ^ 9 then Some (t + s) else None),
      compat_latest = ''latest''\<rparr>"

definition new_item :: "string \<Rightarrow> item_type \<Rightarrow> pyval \<Rightarrow> item" where
  "new_item p ty v =
     \<lparr>path = p, type = ty, value = v, prev_value = v,
      last_change = 0, prev_change = 0, last_update = 0, prev_update = 0,
      changed_by = ''Init:None'', updated_by = ''Init:None'',
      fading = False, enforce_updates = False, eval = None,
      on_update = [], on_update_dest_var = [], on_change = [], on_change_dest_var = [],
      change_logger = DEBUG, log_change_logger = False,
      methods_to_trigger = [], logics_to_trigger = [],
      threshold = False, th_crossed = False, th_low = 0, th_high = 0,
      items_to_trigger = [], cache = None, autotimer = None\<rparr>"

definition one_item :: "item \<Rightarrow> world" where
  "one_item it = \<lparr>items = [path it \<mapsto> it], tick = 0\<rparr>"

section \<open>Properties of relative path expansion\<close>

lemmas str_defs = py_rstrip_def py_lstrip_def py_strip_def
  py_isspace_def py_rfind_def py_find_def py_upto_def slice_index_def py_from_def py_replace_def

lemmas path_defs = get_absolutepath_def expand_relative_def remove_self_def

lemma rfind_absent: "c \<notin> set s \<Longrightarrow> rfind_from s [c] i best = best"
  by (induction s arbitrary: i best) auto

lemma rfind_last: "c \<notin> set hi \<Longrightarrow> rfind_from (lo @ c # hi) [c] i best = i + int (length lo)"
proof (induction lo arbitrary: i best)
  case Nil
  then show ?case by (simp add: rfind_absent)
next
  case (Cons a lo)
  from Cons.IH [OF Cons.prems, of "i + 1"] show ?case by simp
qed

lemma walk_up_log:
  "walk_up rel rp lg = (r, p, lg') \<Longrightarrow>
     lg' = lg \<or> (lg' = lg @ [(ERROR, ''get_absolutepath: above root level'')] \<and> r = [] \<and> p = [])"
  by (induction rel rp lg rule: walk_up.induct) (auto split: if_splits)

lemma startswith_butlast: "startswith s (p @ [x]) \<Longrightarrow> startswith s p"
  by (induction s p rule: startswith.induct) auto

lemma find_from_none:
  "0 \<le> i \<Longrightarrow> find_from (c # cs) sub i = - 1 \<Longrightarrow> \<not> startswith (c # cs) sub \<and> find_from cs sub (i + 1) = - 1"
  by (auto split: if_splits)

lemma self_no_overlap:
  assumes "startswith (x @ ''.self'') ''.self''" and "x \<noteq> []"
  shows "startswith x ''.self''"
proof (cases x)
  case Nil with assms show ?thesis by simp
next
  case (Cons a x1)
  show ?thesis
  proof (cases x1)
    case Nil with Cons assms show ?thesis by simp
  next
    case (Cons b x2)
    note c2 = this
    show ?thesis
    proof (cases x2)
      case Nil with c2 \<open>x = a # x1\<close> assms show ?thesis by simp
    next
      case (Cons c x3)
      note c3 = this
      show ?thesis
      proof (cases x3)
        case Nil with c3 c2 \<open>x = a # x1\<close> assms show ?thesis by simp
      next
        case (Cons d x4)
        note c4 = this
        show ?thesis
        proof (cases x4)
          case Nil with c4 c3 c2 \<open>x = a # x1\<close> assms show ?thesis by simp
        next
          case (Cons e x5)
          with c4 c3 c2 \<open>x = a # x1\<close> assms show ?thesis by simp
        qed
      qed
    qed
  qed
qed

lemma replace_skip_nomatch:
  "\<not> startswith (c # cs) old \<Longrightarrow> replace_skip old new 0 (c # cs) = c # replace_skip old new 0 cs"
  by simp

lemma replace_trailing_self:
  "0 \<le> i \<Longrightarrow> find_from q ''.self'' i = - 1 \<Longrightarrow> replace_skip ''.self'' [] 0 (q @ ''.self'') = q"
proof (induction q arbitrary: i)
  case Nil
  show ?case by simp
next
  case (Cons c cs)
  from find_from_none [OF Cons.prems]
  have ns: "\<not> startswith (c # cs) ''.self''" and f: "find_from cs ''.self'' (i + 1) = - 1" by auto
  have "\<not> startswith (c # (cs @ ''.self'')) ''.self''"
    using ns self_no_overlap [of "c # cs"] by auto
  then have "replace_skip ''.self'' [] 0 (c # (cs @ ''.self'')) = c # replace_skip ''.self'' [] 0 (cs @ ''.self'')"
    by (rule replace_skip_nomatch)
  moreover have "replace_skip ''.self'' [] 0 (cs @ ''.self'') = cs"
    using Cons.IH [of "i + 1"] f Cons.prems(1) by simp
  ultimately show ?case by (simp only: append_Cons)
qed

lemma replace_interior_self:
  "0 \<le> i \<Longrightarrow> find_from q ''.self'' i = - 1 \<Longrightarrow> replace_skip ''.self.'' ''.'' 0 q = q"
proof (induction q arbitrary: i)
  case Nil
  show ?case by simp
next
  case (Cons c cs)
  from find_from_none [OF Cons.prems]
  have ns: "\<not> startswith (c # cs) ''.self''" and f: "find_from cs ''.self'' (i + 1) = - 1" by auto
  have "\<not> startswith (c # cs) ''.self.''"
    using ns startswith_butlast [of "c # cs" "''.self''" "CHR ''.''"] by auto
  then have "replace_skip ''.self.'' ''.'' 0 (c # cs) = c # replace_skip ''.self.'' ''.'' 0 cs"
    by (rule replace_skip_nomatch)
  moreover have "replace_skip ''.self.'' ''.'' 0 cs = cs"
    using Cons.IH [of "i + 1"] f Cons.prems(1) by simp
  ultimately show ?case by (simp only:)
qed

lemma remove_self_trailing:
  assumes "py_find q ''.self'' = - 1"
  shows "remove_self (q @ ''.self'') = q"
proof -
  have a: "py_from (q @ ''.self'') (- 5) = ''.self''"
    by (simp add: py_from_def slice_index_def)
  have b: "replace_skip ''.self'' [] 0 (q @ ''.self'') = q"
    using replace_trailing_self [of 0 q] assms by (simp add: py_find_def)
  have c: "replace_skip ''.self.'' ''.'' 0 q = q"
    using replace_interior_self [of 0 q] assms by (simp add: py_find_def)
  show ?thesis
    unfolding remove_self_def a using b c by (simp add: py_replace_def)
qed

lemma above_root_empty:
  assumes "(ERROR, ''get_absolutepath: above root level'') \<in> set (snd (get_absolutepath pth rel))"
  shows "fst (get_absolutepath pth rel) = []"
proof -
  obtain r p lg where w: "walk_up (py_rstrip rel) pth [] = (r, p, lg)"
    by (cases "walk_up (py_rstrip rel) pth []") auto
  from walk_up_log [OF w]
  have d: "lg = [] \<or> (r = [] \<and> p = [])" by auto
  have ne: "rel \<noteq> [] \<and> hd rel = CHR ''.''"
    using assms by (auto simp: get_absolutepath_def split: if_splits)
  have "lg \<noteq> []"
    using assms ne w by (auto simp: path_defs split: if_splits)
  with d have "r = []" "p = []" by auto
  then show ?thesis
    using ne w by (simp add: path_defs py_replace_def py_from_def slice_index_def)
qed

lemma rfind_dot_absent: "CHR ''.'' \<notin> set s \<Longrightarrow> py_rfind s ''.'' = - 1"
  by (simp add: py_rfind_def rfind_absent)

lemma rfind_dot_last:
  "CHR ''.'' \<notin> set hi \<Longrightarrow> py_upto (lo @ CHR ''.'' # hi) (py_rfind (lo @ CHR ''.'' # hi) ''.'') = lo"
  by (simp add: py_rfind_def rfind_last py_upto_def slice_index_def)

lemma rfind_dot_present:
  "CHR ''.'' \<notin> set hi \<Longrightarrow> py_rfind (lo @ CHR ''.'' # hi) ''.'' \<noteq> - 1"
  by (simp add: py_rfind_def rfind_last)

lemma walk_up_rest: "r = [] \<or> hd r \<noteq> CHR ''.'' \<Longrightarrow> walk_up r rp lg = (r, rp, lg)"
  by (cases r) auto

lemma walk_up_dots:
  "walk_up (CHR ''.'' # CHR ''.'' # r) rp lg =
     (if py_rfind rp ''.'' = - 1 then
        (if rp = [] then ([], [], lg @ [(ERROR, ''get_absolutepath: above root level'')])
         else walk_up (CHR ''.'' # r) [] lg)
      else walk_up (CHR ''.'' # r) (py_upto rp (py_rfind rp ''.'')) lg)"
  by simp

lemma walk_up_last_dot:
  "r = [] \<or> hd r \<noteq> CHR ''.'' \<Longrightarrow> walk_up (CHR ''.'' # r) rp lg = (r, rp, lg)"
  by (cases r) auto

lemma walk_up_from_empty:
  "walk_up (replicate (Suc (Suc m)) CHR ''.'' @ r) [] lg
     = ([], [], lg @ [(ERROR, ''get_absolutepath: above root level'')])"
  by (simp add: py_rfind_def)

lemma walk_up_above_root:
  "count_list rp CHR ''.'' + 3 \<le> m \<Longrightarrow>
     walk_up (replicate m CHR ''.'' @ r) rp lg
       = ([], [], lg @ [(ERROR, ''get_absolutepath: above root level'')])"
proof (induction m arbitrary: rp)
  case 0
  then show ?case by simp
next
  case (Suc m)
  from Suc.prems obtain m' where m: "m = Suc (Suc m')" 
    by (metis add_Suc_right numeral_3_eq_3 Suc_le_D Suc_le_mono add.right_neutral le_add2 le_trans)
  have s: "replicate (Suc m) CHR ''.'' @ r = CHR ''.'' # CHR ''.'' # (replicate (Suc m') CHR ''.'' @ r)"
    by (simp add: m)
  show ?case
  proof (cases "CHR ''.'' \<in> set rp")
    case False
    then have n: "py_rfind rp ''.'' = - 1" by (rule rfind_dot_absent)
    show ?thesis
    proof (cases "rp = []")
      case True
      then show ?thesis unfolding s walk_up_dots using n by simp
    next
      case False
      have "walk_up (CHR ''.'' # replicate (Suc m') CHR ''.'' @ r) [] lg
              = ([], [], lg @ [(ERROR, ''get_absolutepath: above root level'')])"
        using walk_up_from_empty [of m' r lg] by simp
      then show ?thesis unfolding s walk_up_dots using n False by simp
    qed
  next
    case True
    then obtain lo hi where sp: "rp = lo @ CHR ''.'' # hi" "CHR ''.'' \<notin> set hi"
      by (meson split_list_last)
    have c: "count_list lo CHR ''.'' + 3 \<le> m"
      using Suc.prems sp by simp
    have u: "py_upto rp (py_rfind rp ''.'') = lo" "py_rfind rp ''.'' \<noteq> - 1"
      using sp rfind_dot_last rfind_dot_present by auto
    have "walk_up (CHR ''.'' # replicate (Suc m') CHR ''.'' @ r) lo lg
              = ([], [], lg @ [(ERROR, ''get_absolutepath: above root level'')])"
      using Suc.IH [OF c] by (simp add: m)
    then show ?thesis unfolding s walk_up_dots using u by simp
  qed
qed

lemma walk_up_below_root:
  "rp \<noteq> [] \<Longrightarrow> hd rp \<noteq> CHR ''.'' \<Longrightarrow> m \<le> count_list rp CHR ''.'' + 2
     \<Longrightarrow> r = [] \<or> hd r \<noteq> CHR ''.''
     \<Longrightarrow> snd (snd (walk_up (replicate m CHR ''.'' @ r) rp lg)) = lg"
proof (induction m arbitrary: rp)
  case 0
  then show ?case by (simp add: walk_up_rest)
next
  case (Suc m)
  show ?case
  proof (cases m)
    case 0
    then show ?thesis using Suc.prems(4) by (simp add: walk_up_last_dot del: walk_up.simps)
  next
    case (Suc m')
    have s: "replicate (Suc m) CHR ''.'' @ r = CHR ''.'' # CHR ''.'' # (replicate m' CHR ''.'' @ r)"
      by (simp add: Suc)
    show ?thesis
    proof (cases "CHR ''.'' \<in> set rp")
      case False
      then have n: "py_rfind rp ''.'' = - 1" by (rule rfind_dot_absent)
      from False have "count_list rp CHR ''.'' = 0" by (simp add: count_list_0_iff)
      with Suc.prems(3) Suc have m': "m' = 0" by simp
      show ?thesis
        unfolding s walk_up_dots using n Suc.prems(1,4) m'
        by (simp add: walk_up_last_dot del: walk_up.simps)
    next
      case True
      then obtain lo hi where sp: "rp = lo @ CHR ''.'' # hi" "CHR ''.'' \<notin> set hi"
        by (meson split_list_last)
      have lo: "lo \<noteq> []" "hd lo \<noteq> CHR ''.''"
        using Suc.prems(1,2) sp by (cases lo; simp)+
      have c: "m \<le> count_list lo CHR ''.'' + 2"
        using Suc.prems(3) sp by simp
      have u: "py_upto rp (py_rfind rp ''.'') = lo" "py_rfind rp ''.'' \<noteq> - 1"
        using sp rfind_dot_last rfind_dot_present by auto
      have "snd (snd (walk_up (CHR ''.'' # replicate m' CHR ''.'' @ r) lo lg)) = lg"
        using Suc.IH [OF lo c Suc.prems(4)] by (simp add: Suc del: walk_up.simps)
      then show ?thesis unfolding s walk_up_dots using u by (simp del: walk_up.simps)
    qed
  qed
qed

lemma rstrip_prefix: "\<exists>t. s = py_rstrip s @ t"
proof -
  have "py_rstrip s @ rev (takeWhile py_isspace (rev s))
          = rev (takeWhile py_isspace (rev s) @ dropWhile py_isspace (rev s))"
    by (simp only: py_rstrip_def rev_append)
  also have "\<dots> = s"
    by (simp only: takeWhile_dropWhile_id rev_rev_ident)
  finally have "s = py_rstrip s @ rev (takeWhile py_isspace (rev s))" by (rule sym)
  then show ?thesis by (rule exI)
qed

lemma rstrip_hd:
  assumes "r = [] \<or> hd r \<noteq> CHR ''.''"
  shows "py_rstrip r = [] \<or> hd (py_rstrip r) \<noteq> CHR ''.''"
proof (cases "py_rstrip r")
  case Nil
  then show ?thesis by simp
next
  case (Cons a l)
  obtain t where "r = py_rstrip r @ t" using rstrip_prefix by blast
  with Cons have "r = a # (l @ t)" by simp
  with assms have "a \<noteq> CHR ''.''" by auto
  with Cons show ?thesis by simp
qed

lemma dot_not_space: "\<not> py_isspace CHR ''.''"
  by (simp add: py_isspace_def)

lemma rstrip_dots:
  "0 < m \<Longrightarrow> py_rstrip (replicate m CHR ''.'' @ r) = replicate m CHR ''.'' @ py_rstrip r"
proof -
  assume m: "0 < m"
  have d: "dropWhile py_isspace (replicate m CHR ''.'') = replicate m CHR ''.''"
    using m by (cases m) (simp_all add: dot_not_space)
  show ?thesis
  proof (cases "\<forall>x\<in>set (rev r). py_isspace x")
    case True
    then have "dropWhile py_isspace (rev r) = []" by simp
    with True d show ?thesis
      by (simp add: py_rstrip_def dropWhile_append del: set_rev)
  next
    case False
    then show ?thesis
      by (simp add: py_rstrip_def dropWhile_append dot_not_space del: set_rev)
  qed
qed

lemma above_root_logged:
  assumes "count_list pth CHR ''.'' + 3 \<le> m"
  shows "get_absolutepath pth (replicate m CHR ''.'' @ r)
    = ([], [(ERROR, ''get_absolutepath: above root level''), (INFO, ''get_absolutepath: result'')])"
proof -
  from assms have m: "0 < m" by simp
  then have h: "replicate m CHR ''.'' @ r \<noteq> []" "hd (replicate m CHR ''.'' @ r) = CHR ''.''"
    by (cases m; simp)+
  have w: "walk_up (py_rstrip (replicate m CHR ''.'' @ r)) pth []
             = ([], [], [(ERROR, ''get_absolutepath: above root level'')])"
    using walk_up_above_root [OF assms, of "py_rstrip r" "[]"] by (simp add: rstrip_dots [OF m])
  show ?thesis
    using h w by (simp add: path_defs py_replace_def py_from_def slice_index_def)
qed

lemma below_root_not_logged:
  assumes "pth \<noteq> []" "hd pth \<noteq> CHR ''.''" "0 < m" "m \<le> count_list pth CHR ''.'' + 2"
    "r = [] \<or> hd r \<noteq> CHR ''.''"
  shows "snd (get_absolutepath pth (replicate m CHR ''.'' @ r)) = [(INFO, ''get_absolutepath: result'')]"
proof -
  from assms(3) have h: "replicate m CHR ''.'' @ r \<noteq> []" "hd (replicate m CHR ''.'' @ r) = CHR ''.''"
    by (cases m; simp)+
  have w: "snd (snd (walk_up (py_rstrip (replicate m CHR ''.'' @ r)) pth [])) = []"
    using walk_up_below_root [OF assms(1,2,4) rstrip_hd [OF assms(5)], of "[]"]
    by (simp add: rstrip_dots [OF assms(3)])
  show ?thesis
    using h w by (auto simp: path_defs split: prod.splits)
qed

text \<open>
  Claim C5, as the code has it.  From the node \<open>a.b.c\<close> the relative paths \<open>.d\<close>, \<open>..d\<close> and
  \<open>...d\<close> expand to \<open>a.b.c.d\<close>, \<open>a.b.d\<close> and \<open>a.d\<close>, and \<open>.self\<close> expands to \<open>a.b.c\<close>.
  For every node and every relative path (one with a leading dot): when the expanded path
  is \<open>q.self\<close> and \<open>.self\<close> does not occur in \<open>q\<close>, the result is \<open>q\<close>.  A path without a
  leading dot is returned as it is, with no log record.  The walk above the root level:
  whenever it is logged as an error, the result is the empty path; and it is logged, with
  the empty path as the result, for every relative path that has at least three leading
  dots more than the path of the node has dots.  From a node whose path does not start
  with a dot, a relative path with at most two leading dots more than the path of the node
  has dots logs no error.  So from \<open>a.b.c\<close> the path \<open>.....d\<close> is an error and gives the empty
  path, while \<open>....d\<close> gives the top-level \<open>d\<close>; \<open>...d\<close> from the root node \<open>a\<close> is an error.
  The function is total: no input makes it raise.
\<close>

theorem get_absolutepath_expansion:
  "fst (get_absolutepath ''a.b.c'' ''.d'') = ''a.b.c.d''
   \<and> fst (get_absolutepath ''a.b.c'' ''..d'') = ''a.b.d''
   \<and> fst (get_absolutepath ''a.b.c'' ''...d'') = ''a.d''
   \<and> fst (get_absolutepath ''a.b.c'' ''.self'') = ''a.b.c''
   \<and> (\<forall>pth rel q lg. rel \<noteq> [] \<longrightarrow> hd rel = CHR ''.'' \<longrightarrow> expand_relative pth rel = (q @ ''.self'', lg)
          \<longrightarrow> py_find q ''.self'' = - 1 \<longrightarrow> fst (get_absolutepath pth rel) = q)
   \<and> (\<forall>pth rel. rel = [] \<or> hd rel \<noteq> CHR ''.'' \<longrightarrow> get_absolutepath pth rel = (rel, []))
   \<and> (\<forall>pth rel. (ERROR, ''get_absolutepath: above root level'') \<in> set (snd (get_absolutepath pth rel))
          \<longrightarrow> fst (get_absolutepath pth rel) = [])
   \<and> get_absolutepath ''a'' ''...d'' =
       ([], [(ERROR, ''get_absolutepath: above root level''), (INFO, ''get_absolutepath: result'')])
   \<and> (\<forall>pth m r. count_list pth CHR ''.'' + 3 \<le> m \<longrightarrow>
          get_absolutepath pth (replicate m CHR ''.'' @ r) =
            ([], [(ERROR, ''get_absolutepath: above root level''), (INFO, ''get_absolutepath: result'')]))
   \<and> (\<forall>pth m r. pth \<noteq> [] \<longrightarrow> hd pth \<noteq> CHR ''.'' \<longrightarrow> 0 < m \<longrightarrow> m \<le> count_list pth CHR ''.'' + 2
          \<longrightarrow> (r = [] \<or> hd r \<noteq> CHR ''.'')
          \<longrightarrow> snd (get_absolutepath pth (replicate m CHR ''.'' @ r)) = [(INFO, ''get_absolutepath: result'')])
   \<and> get_absolutepath ''a.b.c'' ''.....d'' =
       ([], [(ERROR, ''get_absolutepath: above root level''), (INFO, ''get_absolutepath: result'')])
   \<and> get_absolutepath ''a.b.c'' ''....d'' = (''d'', [(INFO, ''get_absolutepath: result'')])"
proof (intro conjI allI impI)
  show "fst (get_absolutepath ''a.b.c'' ''.d'') = ''a.b.c.d''"
    by (simp add: path_defs str_defs)
  show "fst (get_absolutepath ''a.b.c'' ''..d'') = ''a.b.d''"
    by (simp add: path_defs str_defs)
  show "fst (get_absolutepath ''a.b.c'' ''...d'') = ''a.d''"
    by (simp add: path_defs str_defs)
  show "fst (get_absolutepath ''a.b.c'' ''.self'') = ''a.b.c''"
    by (simp add: path_defs str_defs)
  show "get_absolutepath ''a'' ''...d'' =
       ([], [(ERROR, ''get_absolutepath: above root level''), (INFO, ''get_absolutepath: result'')])"
    by (simp add: path_defs str_defs)
  show "get_absolutepath ''a.b.c'' ''.....d'' =
       ([], [(ERROR, ''get_absolutepath: above root level''), (INFO, ''get_absolutepath: result'')])"
    by (simp add: path_defs str_defs)
  show "get_absolutepath ''a.b.c'' ''....d'' = (''d'', [(INFO, ''get_absolutepath: result'')])"
    by (simp add: path_defs str_defs)
next
  fix pth :: string and m :: nat and r :: string
  assume "count_list pth CHR ''.'' + 3 \<le> m"
  then show "get_absolutepath pth (replicate m CHR ''.'' @ r) =
       ([], [(ERROR, ''get_absolutepath: above root level''), (INFO, ''get_absolutepath: result'')])"
    by (rule above_root_logged)
next
  fix pth :: string and m :: nat and r :: string
  assume "pth \<noteq> []" "hd pth \<noteq> CHR ''.''" "0 < m" "m \<le> count_list pth CHR ''.'' + 2"
    "r = [] \<or> hd r \<noteq> CHR ''.''"
  then show "snd (get_absolutepath pth (replicate m CHR ''.'' @ r)) = [(INFO, ''get_absolutepath: result'')]"
    by (rule below_root_not_logged)
next
  fix pth rel q lg
  assume "rel \<noteq> []" "hd rel = CHR ''.''" "expand_relative pth rel = (q @ ''.self'', lg)"
    "py_find q ''.self'' = - 1"
  then show "fst (get_absolutepath pth rel) = q"
    by (simp add: get_absolutepath_def remove_self_trailing)
next
  fix pth rel :: string
  assume "rel = [] \<or> hd rel \<noteq> CHR ''.''"
  then show "get_absolutepath pth rel = (rel, [])"
    by (auto simp: get_absolutepath_def)
next
  fix pth rel
  assume "(ERROR, ''get_absolutepath: above root level'') \<in> set (snd (get_absolutepath pth rel))"
  then show "fst (get_absolutepath pth rel) = []" by (rule above_root_empty)
qed

text \<open>The general parts of C5 at concrete paths.\<close>

theorem get_absolutepath_expansion_witness:
  "fst (get_absolutepath ''a.b.c'' ''..x.self'') = ''a.b.x''
   \<and> get_absolutepath ''a.b.c'' ''d.self'' = (''d.self'', [])
   \<and> fst (get_absolutepath ''a'' ''....d'') = []
   \<and> get_absolutepath ''x.y'' (replicate 4 CHR ''.'' @ ''z '') =
       ([], [(ERROR, ''get_absolutepath: above root level''), (INFO, ''get_absolutepath: result'')])
   \<and> snd (get_absolutepath ''x.y'' (replicate 3 CHR ''.'' @ ''z'')) = [(INFO, ''get_absolutepath: result'')]"
proof -
  have e: "expand_relative ''a.b.c'' ''..x.self'' = (''a.b.x'' @ ''.self'', [])"
    by (simp add: path_defs str_defs)
  have f: "py_find ''a.b.x'' ''.self'' = - 1"
    by (simp add: py_find_def)
  have g: "(ERROR, ''get_absolutepath: above root level'') \<in> set (snd (get_absolutepath ''a'' ''....d''))"
    by (simp add: path_defs str_defs)
  have a: "count_list ''x.y'' CHR ''.'' + 3 \<le> (4 :: nat)"
    by simp
  have b: "''x.y'' \<noteq> []" "hd ''x.y'' \<noteq> CHR ''.''" "0 < (3 :: nat)" "(3 :: nat) \<le> count_list ''x.y'' CHR ''.'' + 2"
    "''z'' = [] \<or> hd ''z'' \<noteq> CHR ''.''"
    by simp_all
  note t = get_absolutepath_expansion
  have 1: "fst (get_absolutepath ''a.b.c'' ''..x.self'') = ''a.b.x''
            \<and> get_absolutepath ''a.b.c'' ''d.self'' = (''d.self'', [])
            \<and> fst (get_absolutepath ''a'' ''....d'') = []"
    using t e f g by simp
  have 2: "get_absolutepath ''x.y'' (replicate 4 CHR ''.'' @ ''z '') =
       ([], [(ERROR, ''get_absolutepath: above root level''), (INFO, ''get_absolutepath: result'')])"
    using t a by blast
  have 3: "snd (get_absolutepath ''x.y'' (replicate 3 CHR ''.'' @ ''z'')) = [(INFO, ''get_absolutepath: result'')]"
    using t b by blast
  from 1 2 3 show ?thesis by blast
qed

text \<open>
  C5 as stated fails at two inputs: the path \<open>a.b.c.self\<close> itself, which has no leading dot
  and is returned unchanged, and \<open>.selfx.self\<close>, where \<open>replace\<close> removes every occurrence of
  \<open>.self\<close> and not only the trailing segment.
\<close>

theorem get_absolutepath_self_counterexample:
  "fst (get_absolutepath ''a.b.c'' ''a.b.c.self'') = ''a.b.c.self''
   \<and> fst (get_absolutepath ''a.b.c'' ''.selfx.self'') = ''a.b.cx''"
  by (simp add: path_defs str_defs)


section \<open>Properties of the rule split\<close>

lemma find_from_nomatch:
  "\<not> startswith (c # cs) sub \<Longrightarrow> find_from (c # cs) sub k = find_from cs sub (k + 1)"
  by simp

lemma find_from_lower: "0 \<le> k \<Longrightarrow> find_from s sub k = - 1 \<or> k \<le> find_from s sub k"
proof (induction s arbitrary: k)
  case Nil then show ?case by simp
next
  case (Cons c cs)
  from Cons.IH [of "k + 1"] Cons.prems show ?case by auto
qed

lemma find_eq_absent: "CHR ''='' \<notin> set s \<Longrightarrow> find_from s ''='' k = - 1"
  by (induction s arbitrary: k) auto

lemma first_shift:
  assumes "\<forall>j<Suc i. (c # cs) ! j \<noteq> x"
  shows "c \<noteq> x" and "\<forall>j<i. cs ! j \<noteq> x"
proof -
  from assms have "(c # cs) ! 0 \<noteq> x" by blast
  then show "c \<noteq> x" by simp
  show "\<forall>j<i. cs ! j \<noteq> x"
  proof (intro allI impI)
    fix j assume "j < i"
    then have "Suc j < Suc i" by simp
    with assms have "(c # cs) ! Suc j \<noteq> x" by blast
    then show "cs ! j \<noteq> x" by simp
  qed
qed

lemma find_eq_first:
  "i < length s \<Longrightarrow> s ! i = CHR ''='' \<Longrightarrow> \<forall>j<i. s ! j \<noteq> CHR ''='' \<Longrightarrow>
     find_from s ''='' k = k + int i"
proof (induction s arbitrary: i k)
  case Nil then show ?case by simp
next
  case (Cons c cs)
  show ?case
  proof (cases i)
    case 0
    with Cons.prems show ?thesis by simp
  next
    case (Suc i')
    from Cons.prems(3) have c: "c \<noteq> CHR ''=''" and r: "\<forall>j<i'. cs ! j \<noteq> CHR ''=''"
      unfolding Suc by (rule first_shift)+
    have "find_from cs ''='' (k + 1) = (k + 1) + int i'"
      using Cons.IH [of i' "k + 1"] Cons.prems(1,2) r Suc by simp
    with c Suc show ?thesis by simp
  qed
qed

lemma find_eqeq_followed:
  "Suc i < length s \<Longrightarrow> s ! i = CHR ''='' \<Longrightarrow> s ! Suc i = CHR ''='' \<Longrightarrow>
     \<forall>j<i. s ! j \<noteq> CHR ''='' \<Longrightarrow> find_from s ''=='' k = k + int i"
proof (induction s arbitrary: i k)
  case Nil then show ?case by simp
next
  case (Cons c cs)
  show ?case
  proof (cases i)
    case 0
    with Cons.prems show ?thesis by (cases cs) auto
  next
    case (Suc i')
    from Cons.prems(4) have c: "c \<noteq> CHR ''=''" and r: "\<forall>j<i'. cs ! j \<noteq> CHR ''=''"
      unfolding Suc by (rule first_shift)+
    have "find_from cs ''=='' (k + 1) = (k + 1) + int i'"
      using Cons.IH [of i' "k + 1"] Cons.prems(1,2,3) r Suc by simp
    with c Suc show ?thesis by simp
  qed
qed

lemma find_eqeq_bare:
  "i < length s \<Longrightarrow> s ! i = CHR ''='' \<Longrightarrow> \<not> (Suc i < length s \<and> s ! Suc i = CHR ''='') \<Longrightarrow>
     \<forall>j<i. s ! j \<noteq> CHR ''='' \<Longrightarrow> 0 \<le> k \<Longrightarrow>
     find_from s ''=='' k = - 1 \<or> k + int i < find_from s ''=='' k"
proof (induction s arbitrary: i k)
  case Nil then show ?case by simp
next
  case (Cons c cs)
  show ?case
  proof (cases i)
    case 0
    with Cons.prems have "\<not> startswith (c # cs) ''==''" by (cases cs) auto
    then have "find_from (c # cs) ''=='' k = find_from cs ''=='' (k + 1)"
      by (rule find_from_nomatch)
    moreover have "find_from cs ''=='' (k + 1) = - 1 \<or> k + 1 \<le> find_from cs ''=='' (k + 1)"
      using find_from_lower [of "k + 1" cs "''==''"] Cons.prems by simp
    ultimately show ?thesis using 0 by auto
  next
    case (Suc i')
    from Cons.prems(4) have c: "c \<noteq> CHR ''=''" and r: "\<forall>j<i'. cs ! j \<noteq> CHR ''=''"
      unfolding Suc by (rule first_shift)+
    from c have "\<not> startswith (c # cs) ''==''" by simp
    then have f: "find_from (c # cs) ''=='' k = find_from cs ''=='' (k + 1)"
      by (rule find_from_nomatch)
    have "find_from cs ''=='' (k + 1) = - 1 \<or> (k + 1) + int i' < find_from cs ''=='' (k + 1)"
      using Cons.IH [of i' "k + 1"] Cons.prems(1,2,3,5) r Suc by simp
    then show ?thesis unfolding f using Suc by auto
  qed
qed

lemma py_upto_nat: "py_upto s (int i) = take i s"
  by (simp add: py_upto_def slice_index_def)

lemma py_from_nat: "py_from s (int i + 1) = drop (Suc i) s"
  by (simp add: py_from_def slice_index_def nat_add_distrib)

lemma first_bare_eq_first:
  assumes "i < length s" "s ! i = CHR ''=''" "\<forall>j<i. s ! j \<noteq> CHR ''=''"
    and "\<not> (Suc i < length s \<and> s ! Suc i = CHR ''='')"
  shows "first_bare_eq s = Some i"
proof -
  have b: "bare_eq s i" using assms by (auto simp: bare_eq_def)
  have nb: "\<forall>j<i. \<not> bare_eq s j" using assms by (auto simp: bare_eq_def)
  show ?thesis
    unfolding first_bare_eq_def find_Some_iff
    using b nb assms(1) by (intro exI [of _ i]) auto
qed

lemma split_no_eq: "CHR ''='' \<notin> set v \<Longrightarrow> split_destitem_from_value v = ([], v)"
  by (simp add: split_destitem_from_value_def py_find_def find_eq_absent)

lemma split_eqeq_first:
  assumes "Suc i < length v" "v ! i = CHR ''=''" "v ! Suc i = CHR ''=''" "\<forall>j<i. v ! j \<noteq> CHR ''=''"
  shows "split_destitem_from_value v = ([], v)"
proof -
  have f1: "py_find v ''='' = int i"
    using find_eq_first [of i v 0] assms by (simp add: py_find_def)
  have f2: "py_find v ''=='' = int i"
    using find_eqeq_followed [OF assms, of 0] by (simp add: py_find_def)
  show ?thesis by (simp add: split_destitem_from_value_def f1 f2)
qed

lemma split_bare_first:
  assumes "i < length v" "v ! i = CHR ''=''" "\<not> (Suc i < length v \<and> v ! Suc i = CHR ''='')"
    "\<forall>j<i. v ! j \<noteq> CHR ''=''"
  shows "split_destitem_from_value v =
           (if py_find v ''=='' = - 1 then take i v else py_strip (take i v),
            py_strip (drop (Suc i) v))"
proof -
  have f1: "py_find v ''='' = int i"
    using find_eq_first [of i v 0] assms by (simp add: py_find_def)
  have f2: "py_find v ''=='' = - 1 \<or> int i < py_find v ''==''"
    using find_eqeq_bare [OF assms, of 0] by (simp add: py_find_def)
  show ?thesis
  proof (cases "py_find v ''=='' = - 1")
    case True
    then show ?thesis
      by (simp add: split_destitem_from_value_def f1 py_upto_nat py_from_nat)
  next
    case False
    with f2 have "int i < py_find v ''==''" by simp
    with False show ?thesis
      by (simp add: split_destitem_from_value_def f1 py_upto_nat py_from_nat)
  qed
qed

text \<open>
  Claim C7, as the code has it.  A string without \<open>=\<close> is all expression, with an empty
  destination.  When the first \<open>=\<close> of the string is directly followed by another \<open>=\<close> (an
  \<open>==\<close> comes before any single \<open>=\<close>), the destination is empty and the whole string is the
  expression, whatever follows.  When the first \<open>=\<close> is not followed by another, it is the
  first \<open>=\<close> that is not part of \<open>==\<close>; the expression is the text after it with the
  surrounding whitespace removed, and the destination is the text before it, with the
  surrounding whitespace removed when an \<open>==\<close> occurs later in the string.
\<close>

theorem split_destitem_first_eq:
  "(CHR ''='' \<notin> set v \<longrightarrow> split_destitem_from_value v = ([], v))
   \<and> (\<forall>i. Suc i < length v \<and> v ! i = CHR ''='' \<and> v ! Suc i = CHR ''='' \<and> (\<forall>j<i. v ! j \<noteq> CHR ''='')
          \<longrightarrow> split_destitem_from_value v = ([], v))
   \<and> (\<forall>i. i < length v \<and> v ! i = CHR ''='' \<and> \<not> (Suc i < length v \<and> v ! Suc i = CHR ''='')
            \<and> (\<forall>j<i. v ! j \<noteq> CHR ''='')
          \<longrightarrow> first_bare_eq v = Some i
              \<and> split_destitem_from_value v =
                  (if py_find v ''=='' = - 1 then take i v else py_strip (take i v),
                   py_strip (drop (Suc i) v)))"
proof (intro conjI allI impI)
  assume "CHR ''='' \<notin> set v"
  then show "split_destitem_from_value v = ([], v)" by (rule split_no_eq)
next
  fix i
  assume "Suc i < length v \<and> v ! i = CHR ''='' \<and> v ! Suc i = CHR ''='' \<and> (\<forall>j<i. v ! j \<noteq> CHR ''='')"
  then show "split_destitem_from_value v = ([], v)"
    using split_eqeq_first [of i v] by blast
next
  fix i
  assume a: "i < length v \<and> v ! i = CHR ''='' \<and> \<not> (Suc i < length v \<and> v ! Suc i = CHR ''='')
            \<and> (\<forall>j<i. v ! j \<noteq> CHR ''='')"
  show "first_bare_eq v = Some i"
    using first_bare_eq_first [of i v] a by blast
  show "split_destitem_from_value v =
                  (if py_find v ''=='' = - 1 then take i v else py_strip (take i v),
                   py_strip (drop (Suc i) v))"
    using split_bare_first [of i v] a by blast
qed

text \<open>The three cases of C7 at concrete rule strings.\<close>

theorem split_destitem_first_eq_witness:
  "split_destitem_from_value ''sh.x(1)'' = ([], ''sh.x(1)'')
   \<and> split_destitem_from_value ''a==b'' = ([], ''a==b'')
   \<and> first_bare_eq ''x = 1'' = Some 2
   \<and> split_destitem_from_value ''x = 1'' = (''x '', ''1'')
   \<and> split_destitem_from_value ''x = 1 if y == 2 else 3'' = (''x'', ''1 if y == 2 else 3'')"
proof -
  have a: "CHR ''='' \<notin> set ''sh.x(1)''" by simp
  have b: "Suc 1 < length ''a==b'' \<and> ''a==b'' ! 1 = CHR ''='' \<and> ''a==b'' ! Suc 1 = CHR ''=''
      \<and> (\<forall>j<1. ''a==b'' ! j \<noteq> CHR ''='')"
    by simp
  have c: "2 < length ''x = 1'' \<and> ''x = 1'' ! 2 = CHR ''=''
      \<and> \<not> (Suc 2 < length ''x = 1'' \<and> ''x = 1'' ! Suc 2 = CHR ''='')
      \<and> (\<forall>j<2. ''x = 1'' ! j \<noteq> CHR ''='')"
    by (simp add: less_Suc_eq numeral_2_eq_2)
  have d: "2 < length ''x = 1 if y == 2 else 3'' \<and> ''x = 1 if y == 2 else 3'' ! 2 = CHR ''=''
      \<and> \<not> (Suc 2 < length ''x = 1 if y == 2 else 3'' \<and> ''x = 1 if y == 2 else 3'' ! Suc 2 = CHR ''='')
      \<and> (\<forall>j<2. ''x = 1 if y == 2 else 3'' ! j \<noteq> CHR ''='')"
    by (simp add: less_Suc_eq numeral_2_eq_2)
  have A: "split_destitem_from_value ''sh.x(1)'' = ([], ''sh.x(1)'')"
    using split_destitem_first_eq [of "''sh.x(1)''", THEN conjunct1] a by (rule mp)
  have B: "split_destitem_from_value ''a==b'' = ([], ''a==b'')"
    using split_destitem_first_eq [of "''a==b''", THEN conjunct2, THEN conjunct1, THEN spec, of 1] b
    by (rule mp)
  have "first_bare_eq ''x = 1'' = Some 2 \<and> split_destitem_from_value ''x = 1'' =
      (if py_find ''x = 1'' ''=='' = - 1 then take 2 ''x = 1'' else py_strip (take 2 ''x = 1''),
       py_strip (drop (Suc 2) ''x = 1''))"
    using split_destitem_first_eq [of "''x = 1''", THEN conjunct2, THEN conjunct2, THEN spec, of 2] c
    by (rule mp)
  then have C: "first_bare_eq ''x = 1'' = Some 2 \<and> split_destitem_from_value ''x = 1'' = (''x '', ''1'')"
    by (simp add: str_defs numeral_2_eq_2)
  have "first_bare_eq ''x = 1 if y == 2 else 3'' = Some 2 \<and> split_destitem_from_value ''x = 1 if y == 2 else 3'' =
      (if py_find ''x = 1 if y == 2 else 3'' ''=='' = - 1 then take 2 ''x = 1 if y == 2 else 3''
       else py_strip (take 2 ''x = 1 if y == 2 else 3''),
       py_strip (drop (Suc 2) ''x = 1 if y == 2 else 3''))"
    using split_destitem_first_eq [of "''x = 1 if y == 2 else 3''", THEN conjunct2, THEN conjunct2, THEN spec, of 2] d
    by (rule mp)
  then have D: "split_destitem_from_value ''x = 1 if y == 2 else 3'' = (''x'', ''1 if y == 2 else 3'')"
    by (simp add: str_defs numeral_2_eq_2)
  from A B C D show ?thesis by blast
qed

text \<open>
  C7 as stated fails at \<open>a == b = c\<close>: the first \<open>=\<close> that is not part of \<open>==\<close> is at index 7,
  so the claim gives the destination \<open>a == b\<close> and the expression \<open>c\<close>; the code returns an
  empty destination and the whole string.
\<close>

theorem split_destitem_counterexample:
  "spec_split_destitem ''a == b = c'' = (''a == b '', '' c'')
   \<and> split_destitem_from_value ''a == b = c'' = ([], ''a == b = c'')"
  by (simp add: spec_split_destitem_def first_bare_eq_def bare_eq_def split_destitem_from_value_def
      py_find_def upt_rec [of 0] upt_rec [of "Suc _"] numeral_nat)

section \<open>Properties of the threshold attribute\<close>

lemma rpartition_last:
  "CHR '':'' \<notin> set hi \<Longrightarrow> py_rpartition (lo @ CHR '':'' # hi) '':'' = (lo, '':'', hi)"
proof -
  assume a: "CHR '':'' \<notin> set hi"
  have n: "nat (int (length lo) + 1) = Suc (length lo)" by simp
  show ?thesis
    using a by (simp add: py_rpartition_def py_rfind_def rfind_last py_upto_def py_from_def slice_index_def n)
qed

lemma rpartition_none:
  "CHR '':'' \<notin> set s \<Longrightarrow> py_rpartition s '':'' = ([], [], s)"
  by (simp add: py_rpartition_def py_rfind_def rfind_absent)

text \<open>
  Claim C8, as the code has it.  A threshold \<open>low:high\<close> gives the two floats.  When the low
  side is omitted (\<open>:20\<close>, or a single value \<open>20\<close> without a colon), both thresholds are the
  value that is present.  When the high side is omitted (\<open>10:\<close>), \<open>float\<close> is given the
  empty string and its \<open>ValueError\<close> leaves \<open>Item.__init__\<close>; that \<open>float\<close> raises on
  the empty string, as it does in Python, is the hypothesis on the surroundings.
\<close>

theorem parse_threshold_sides:
  "(CHR '':'' \<notin> set hi \<and> py_float_str e (py_strip hi) = Some h \<longrightarrow>
      parse_threshold e (CHR '':'' # hi) it
        = Inr (it\<lparr>threshold := True, th_crossed := False, th_low := h, th_high := h\<rparr>)
      \<and> parse_threshold e hi it
        = Inr (it\<lparr>threshold := True, th_crossed := False, th_low := h, th_high := h\<rparr>))
   \<and> (CHR '':'' \<notin> set hi \<and> lo \<noteq> [] \<and> py_float_str e (py_strip lo) = Some l
        \<and> py_float_str e (py_strip hi) = Some h \<longrightarrow>
      parse_threshold e (lo @ CHR '':'' # hi) it
        = Inr (it\<lparr>threshold := True, th_crossed := False, th_low := l, th_high := h\<rparr>))
   \<and> (py_float_str e [] = None \<longrightarrow> parse_threshold e (lo @ '':'') it = Inl ValueError)"
proof (intro conjI impI)
  assume a: "CHR '':'' \<notin> set hi \<and> py_float_str e (py_strip hi) = Some h"
  then have "py_rpartition (CHR '':'' # hi) '':'' = ([], '':'', hi)"
    using rpartition_last [of hi "[]"] by simp
  with a show "parse_threshold e (CHR '':'' # hi) it
        = Inr (it\<lparr>threshold := True, th_crossed := False, th_low := h, th_high := h\<rparr>)"
    by (simp add: parse_threshold_def)
  from a have "py_rpartition hi '':'' = ([], [], hi)" by (simp add: rpartition_none)
  with a show "parse_threshold e hi it
        = Inr (it\<lparr>threshold := True, th_crossed := False, th_low := h, th_high := h\<rparr>)"
    by (simp add: parse_threshold_def)
next
  assume a: "CHR '':'' \<notin> set hi \<and> lo \<noteq> [] \<and> py_float_str e (py_strip lo) = Some l
        \<and> py_float_str e (py_strip hi) = Some h"
  then have "py_rpartition (lo @ CHR '':'' # hi) '':'' = (lo, '':'', hi)"
    by (simp add: rpartition_last)
  with a show "parse_threshold e (lo @ CHR '':'' # hi) it
        = Inr (it\<lparr>threshold := True, th_crossed := False, th_low := l, th_high := h\<rparr>)"
    by (simp add: parse_threshold_def)
next
  assume a: "py_float_str e [] = None"
  have r: "py_rpartition (lo @ '':'') '':'' = (lo, '':'', [])"
    using rpartition_last [of "[]" lo] by simp
  have s: "py_strip [] = []" by (simp add: py_strip_def py_rstrip_def py_lstrip_def)
  show "parse_threshold e (lo @ '':'') it = Inl ValueError"
    using a by (simp add: parse_threshold_def r s split: option.splits)
qed

lemma example_floats:
  "py_float_str example_env (py_strip ''20'') = Some 20"
  "py_float_str example_env (py_strip ''10'') = Some 10"
  "py_float_str example_env [] = None"
  by (simp_all add: example_env_def digits_def py_strip_def py_rstrip_def py_lstrip_def py_isspace_def)

text \<open>C8 at the strings \<open>:20\<close>, \<open>20\<close>, \<open>10:20\<close> and \<open>10:\<close>.\<close>

theorem parse_threshold_sides_witness:
  "parse_threshold example_env '':20'' (new_item ''n'' TNum (PInt 0))
     = Inr ((new_item ''n'' TNum (PInt 0))\<lparr>threshold := True, th_crossed := False, th_low := 20, th_high := 20\<rparr>)
   \<and> parse_threshold example_env ''20'' (new_item ''n'' TNum (PInt 0))
     = Inr ((new_item ''n'' TNum (PInt 0))\<lparr>threshold := True, th_crossed := False, th_low := 20, th_high := 20\<rparr>)
   \<and> parse_threshold example_env ''10:20'' (new_item ''n'' TNum (PInt 0))
     = Inr ((new_item ''n'' TNum (PInt 0))\<lparr>threshold := True, th_crossed := False, th_low := 10, th_high := 20\<rparr>)
   \<and> parse_threshold example_env ''10:'' (new_item ''n'' TNum (PInt 0)) = Inl ValueError"
proof -
  note T = parse_threshold_sides [of "''20''" example_env 20 "new_item ''n'' TNum (PInt 0)" "''10''" 10]
  have a: "CHR '':'' \<notin> set ''20'' \<and> py_float_str example_env (py_strip ''20'') = Some 20"
    by (simp add: example_floats)
  have b: "CHR '':'' \<notin> set ''20'' \<and> ''10'' \<noteq> [] \<and> py_float_str example_env (py_strip ''10'') = Some 10
        \<and> py_float_str example_env (py_strip ''20'') = Some 20"
    by (simp add: example_floats)
  have c: "py_float_str example_env [] = None" by (rule example_floats)
  from T a b c show ?thesis by simp
qed

text \<open>C8 as stated fails at \<open>10:\<close>: no thresholds, a \<open>ValueError\<close>.\<close>

theorem parse_threshold_high_omitted_counterexample:
  "parse_threshold example_env ''10:'' (new_item ''n'' TNum (PInt 0)) = Inl ValueError"
  by (simp add: parse_threshold_def py_rpartition_def py_rfind_def py_upto_def py_from_def slice_index_def
      example_env_def digits_def py_strip_def py_rstrip_def py_lstrip_def py_isspace_def)

section \<open>Properties of the plugin attributes\<close>

text \<open>
  Claim C9 against the code: \<open>_get_attr_from_grandparent\<close> returns what
  \<open>_get_attr_from_parent\<close> returns, for every parent and attribute.  For an item whose
  parent holds \<open>foo = P\<close> and whose grandparent holds \<open>foo = G\<close>, the attribute
  \<open>foo = ...\<close> is stored as \<open>P\<close>, where the grandparent holds \<open>G\<close>.
\<close>

theorem grandparent_attr_is_parent_attr:
  "(\<forall>pitem attr. get_attr_from_grandparent pitem attr = get_attr_from_parent pitem attr)
   \<and> map_sum id (\<lambda>conf. conf ''foo'')
        (plugin_attribute (Item_object [''foo'' \<mapsto> PStr ''P''] (Item_object [''foo'' \<mapsto> PStr ''G''] Items_object))
           Map.empty ''foo'' (PStr ''...''))
       = Inr (Some (PStr ''P''))
   \<and> spec_grandparent_attr (Item_object [''foo'' \<mapsto> PStr ''P''] (Item_object [''foo'' \<mapsto> PStr ''G''] Items_object)) ''foo''
       = Some (PStr ''G'')"
  by (simp add: get_attr_from_grandparent_def get_attr_from_parent_def plugin_attribute_def
      spec_grandparent_attr_def)

section \<open>Properties of \<open>__update\<close>: a value that does not cast\<close>

lemmas update_defs = update_body_def commit_def run_on_update_def run_on_change_def rules_of_def
  run_methods_def run_logics_def trigger_logics_def run_dependents_def change_path_def
  write_cache_def rearm_autotimer_def seq_def now_def put_def provenance_def

lemmas cast_defs = cast_str_def cast_num_def cast_bool_def cast_list_def cast_dict_def cast_foo_def
  cast_scene_def py_int_def loads_twice_def

lemmas example_defs = example_env_def new_item_def one_item_def digits_def

text \<open>
  Claim C2, as the code has it.  When the value does not cast to the type of the item,
  \<open>__update\<close> returns without an exception and leaves all items as they were (the value,
  the previous value, the times, the provenance, the fading and threshold state of every
  item, and the clock readings); the only thing it does is to log the warning: no rule
  runs, no method or logic is called, no dependent is dispatched, the cache is not
  written and the autotimer is not re-armed.
\<close>

theorem update_cast_failure:
  "items w p = Some it \<Longrightarrow> cast e (type it) v = Inl x \<Longrightarrow>
     update (Suc n) e p v caller source dest w
       = Some (None, w, [Log WARNING ''__update: value does not match type''])"
  by (simp add: update_body_def)

text \<open>C2 for a number item that is given the string \<open>x\<close>.\<close>

theorem update_cast_failure_witness:
  "update (Suc 0) example_env ''n'' (PStr ''x'') ''Logic'' None None (one_item (new_item ''n'' TNum (PInt 0)))
     = Some (None, one_item (new_item ''n'' TNum (PInt 0)), [Log WARNING ''__update: value does not match type''])"
proof -
  have a: "items (one_item (new_item ''n'' TNum (PInt 0))) ''n'' = Some (new_item ''n'' TNum (PInt 0))"
    by (simp add: example_defs)
  have b: "cast example_env (type (new_item ''n'' TNum (PInt 0))) (PStr ''x'') = Inl ValueError"
    by (simp add: example_defs cast_defs py_strip_def py_rstrip_def py_lstrip_def py_isspace_def)
  show ?thesis using update_cast_failure [OF a b] .
qed

text \<open>
  C2 as stated fails: \<open>__update\<close> can raise.  A string item with a threshold and a logic
  is given the string \<open>x\<close>; the comparison of the value with the threshold raises
  \<open>TypeError\<close>, which leaves \<open>__update\<close>.
\<close>

theorem update_raises_counterexample:
  "map_option fst
     (update (Suc 0) example_env ''s'' (PStr ''x'') ''Logic'' None None
        (one_item ((new_item ''s'' TStr (PStr []))
           \<lparr>threshold := True, th_low := 10, th_high := 20, logics_to_trigger := [7]\<rparr>)))
     = Some (Some TypeError)"
  by (simp add: update_defs example_defs cast_defs py_ge_def py_le_def)

section \<open>Properties kept by an update\<close>

lemma seq_SomeD:
  assumes "seq r f = Some (x, w', evs)"
  shows "(r = Some (x, w', evs) \<and> x \<noteq> None)
         \<or> (\<exists>w1 e1 e2. r = Some (None, w1, e1) \<and> f w1 = Some (x, w', e2) \<and> evs = e1 @ e2)"
  using assms by (auto simp: seq_def split: option.splits prod.splits)

lemma seq_keeps:
  assumes "seq r f = Some (x, w', evs)"
    and "\<And>x1 w1 e1. r = Some (x1, w1, e1) \<Longrightarrow> Q w1"
    and "\<And>w1 x2 w2 e2. Q w1 \<Longrightarrow> f w1 = Some (x2, w2, e2) \<Longrightarrow> Q w2"
  shows "Q w'"
  using seq_SomeD [OF assms(1)] assms(2,3) by blast

lemma kept_tick: "kept_by Q upd p v \<Longrightarrow> Q w \<Longrightarrow> Q (w\<lparr>tick := n\<rparr>)"
  unfolding kept_by_def by blast

lemma kept_now: "kept_by Q upd p v \<Longrightarrow> Q w \<Longrightarrow> Q (snd (now e w))"
  by (simp add: now_def kept_tick)

lemma kept_own:
  "kept_by Q upd p v \<Longrightarrow> Q w \<Longrightarrow> items w p = Some it \<Longrightarrow> config_of it' = config_of it
     \<Longrightarrow> value it' = value it \<or> value it' = v \<Longrightarrow> Q (put p it' w)"
  unfolding kept_by_def by blast

lemma kept_rules: "kept_by Q upd p v \<Longrightarrow> kept_by_rules Q upd p"
  unfolding kept_by_def by blast

lemma kept_nested:
  "kept_by_rules Q upd p \<Longrightarrow> Q w \<Longrightarrow> Q wa \<Longrightarrow> items wa p = Some it
     \<Longrightarrow> d \<in> set (on_update_dest_var it) \<union> set (on_change_dest_var it) \<Longrightarrow> dv \<noteq> PNone
     \<Longrightarrow> upd d dv a (Some p) None w = Some (x, w', evs) \<Longrightarrow> Q w'"
  unfolding kept_by_rules_def by blast

lemma items_now [simp]: "items (snd (now e w)) = items w"
  by (simp add: now_def)

lemma items_put [simp]: "items (put p it w) = (items w)(p \<mapsto> it)"
  by (simp add: put_def)

lemma commit_keeps:
  assumes k: "kept_by Q upd p v" and q: "Q w" and c: "commit e p v caller source w = (ch, w1, e1)"
  shows "Q w1"
proof (cases "items w p")
  case None
  with c q show ?thesis by (simp add: commit_def)
next
  case (Some it)
  show ?thesis
  proof (cases "py_eq v (value it)")
    case True
    with c Some have w1: "w1 = put p (it\<lparr>updated_by := provenance caller source\<rparr>) w"
      by (simp add: commit_def)
    show ?thesis unfolding w1
      by (rule kept_own [OF k q Some]) (simp_all add: config_of_def)
  next
    case False
    let ?it2 = "it\<lparr>updated_by := provenance caller source, prev_value := value it, value := v,
                   prev_change := last_change it, last_change := fst (now e w),
                   changed_by := provenance caller source\<rparr>"
    from c Some False
    have w1: "w1 = put p (if caller \<noteq> ''fader'' then ?it2\<lparr>fading := False\<rparr> else ?it2) (snd (now e w))"
      by (auto simp: commit_def now_def split: if_splits)
    have q1: "Q (snd (now e w))" by (rule kept_now [OF k q])
    have i1: "items (snd (now e w)) p = Some it" using Some by simp
    show ?thesis unfolding w1
      by (rule kept_own [OF k q1 i1]) (simp_all add: config_of_def)
  qed
qed

lemma eval_world: "eval_reads_only e \<Longrightarrow> \<exists>res. py_eval e w p x v = (res, w, [])"
  unfolding eval_reads_only_def by (metis prod.collapse)

lemma run_on_xxx_keeps:
  assumes ro: "eval_reads_only e"
    and k: "kept_by_rules Q upd p" and q: "Q w" and qa: "Q wa" and ia: "items wa p = Some ita"
    and d: "d \<in> set (on_update_dest_var ita) \<union> set (on_change_dest_var ita)"
    and r: "run_on_xxx upd e p v d ex attr w = Some (x, w', evs)"
  shows "Q w'"
proof -
  obtain res where ev: "py_eval e w p ex v = (res, w, [])"
    using eval_world [OF ro] by blast
  show ?thesis
  proof (cases res)
    case (Inl a)
    with r ev q show ?thesis by (simp add: run_on_xxx_def)
  next
    case (Inr dv)
    show ?thesis
    proof (cases "dv \<noteq> PNone \<and> d \<noteq> [] \<and> items w d \<noteq> None")
      case False
      with r ev Inr q show ?thesis
        by (auto simp: run_on_xxx_def split: if_splits option.splits)
    next
      case True
      with r ev Inr obtain evs' where u: "upd d dv attr (Some p) None w = Some (x, w', evs')"
        by (auto simp: run_on_xxx_def split: if_splits option.splits)
      from True have "dv \<noteq> PNone" by simp
      from kept_nested [OF k q qa ia d this u] show ?thesis .
    qed
  qed
qed

lemma run_rules_keeps:
  assumes ro: "eval_reads_only e" and k: "kept_by_rules Q upd p" and qa: "Q wa" and ia: "items wa p = Some ita"
  shows "Q w \<Longrightarrow> fst ` set rs \<subseteq> set (on_update_dest_var ita) \<union> set (on_change_dest_var ita)
     \<Longrightarrow> run_rules upd e p v attr rs w = Some (x, w', evs) \<Longrightarrow> Q w'"
proof (induction rs arbitrary: w x w' evs)
  case Nil
  then show ?case by simp
next
  case (Cons r rs)
  from Cons.prems(3)
  have s: "seq (run_on_xxx upd e p v (fst r) (snd r) attr w) (run_rules upd e p v attr rs) = Some (x, w', evs)"
    by simp
  have d: "fst r \<in> set (on_update_dest_var ita) \<union> set (on_change_dest_var ita)"
    using Cons.prems(2) by auto
  have rest: "fst ` set rs \<subseteq> set (on_update_dest_var ita) \<union> set (on_change_dest_var ita)"
    using Cons.prems(2) by auto
  show ?case
  proof (rule seq_keeps [OF s])
    fix x1 w1 e1
    assume "run_on_xxx upd e p v (fst r) (snd r) attr w = Some (x1, w1, e1)"
    then show "Q w1" by (rule run_on_xxx_keeps [OF ro k Cons.prems(1) qa ia d])
  next
    fix w1 x2 w2 e2
    assume "Q w1" "run_rules upd e p v attr rs w1 = Some (x2, w2, e2)"
    then show "Q w2" using Cons.IH rest by blast
  qed
qed

lemma rules_of_dests: "fst ` set (rules_of ds xs) \<subseteq> set ds"
  by (auto simp: rules_of_def dest: set_zip_leftD)

lemma run_on_update_keeps:
  assumes ro: "eval_reads_only e" and k: "kept_by_rules Q upd p" and q: "Q w" and r: "run_on_update upd e p v w = Some (x, w', evs)"
  shows "Q w'"
proof (cases "items w p")
  case None
  with r q show ?thesis by (simp add: run_on_update_def)
next
  case (Some it)
  with r have rr: "run_rules upd e p v ''on_update'' (rules_of (on_update_dest_var it) (on_update it)) w
      = Some (x, w', evs)"
    by (simp add: run_on_update_def)
  have "fst ` set (rules_of (on_update_dest_var it) (on_update it))
      \<subseteq> set (on_update_dest_var it) \<union> set (on_change_dest_var it)"
    using rules_of_dests [of "on_update_dest_var it" "on_update it"] by blast
  from run_rules_keeps [OF ro k q Some q this rr] show ?thesis .
qed

lemma run_on_change_keeps:
  assumes ro: "eval_reads_only e" and k: "kept_by_rules Q upd p" and q: "Q w" and r: "run_on_change upd e p v w = Some (x, w', evs)"
  shows "Q w'"
proof (cases "items w p")
  case None
  with r q show ?thesis by (simp add: run_on_change_def)
next
  case (Some it)
  with r have rr: "run_rules upd e p v ''on_change'' (rules_of (on_change_dest_var it) (on_change it)) w
      = Some (x, w', evs)"
    by (simp add: run_on_change_def)
  have "fst ` set (rules_of (on_change_dest_var it) (on_change it))
      \<subseteq> set (on_update_dest_var it) \<union> set (on_change_dest_var it)"
    using rules_of_dests [of "on_change_dest_var it" "on_change it"] by blast
  from run_rules_keeps [OF ro k q Some q this rr] show ?thesis .
qed

lemma run_methods_world: "run_methods e p caller source dest w = Some (x, w', evs) \<Longrightarrow> w' = w \<and> x = None"
  by (auto simp: run_methods_def split: option.splits)

lemma run_dependents_world:
  "run_dependents p v caller source dest w = Some (x, w', evs) \<Longrightarrow> w' = w \<and> x = None"
  by (auto simp: run_dependents_def split: option.splits)

lemma write_cache_world: "write_cache e p ch w = Some (x, w', evs) \<Longrightarrow> w' = w \<and> x = None"
  by (auto simp: write_cache_def split: option.splits if_splits)

lemma run_logics_keeps:
  assumes k: "kept_by Q upd p v" and q: "Q w" and r: "run_logics p w = Some (x, w', evs)"
  shows "Q w'"
proof (cases "items w p")
  case None
  with r q show ?thesis by (simp add: run_logics_def)
next
  case (Some it)
  have "w' = w \<or> (\<exists>b. w' = put p (it\<lparr>th_crossed := b\<rparr>) w)"
    using r Some by (auto simp: run_logics_def split: if_splits option.splits bool.splits)
  moreover have "Q (put p (it\<lparr>th_crossed := b\<rparr>) w)" for b
    by (rule kept_own [OF k q Some]) (simp_all add: config_of_def)
  ultimately show ?thesis using q by auto
qed

lemma change_path_keeps:
  assumes ro: "eval_reads_only e" and k: "kept_by Q upd p v" and q: "Q w"
    and r: "change_path upd e p v caller source dest ch w = Some (x, w', evs)"
  shows "Q w'"
proof (cases "items w p")
  case None
  with r q show ?thesis by (simp add: change_path_def)
next
  case (Some it)
  show ?thesis
  proof (cases "ch \<or> enforce_updates it \<or> type it = TScene")
    case False
    with r Some q show ?thesis by (simp add: change_path_def)
  next
    case True
    let ?w1 = "put p (it\<lparr>prev_update := last_update it, last_update := fst (now e w)\<rparr>) (snd (now e w))"
    from r Some True
    have s: "seq (run_on_change upd e p v ?w1)
               (\<lambda>w2. seq (run_methods e p caller source dest w2)
                  (\<lambda>w3. seq (run_logics p w3) (run_dependents p v caller source dest)))
             = Some (x, w', evs)"
      by (simp add: change_path_def now_def split: prod.splits)
    have i1: "items (snd (now e w)) p = Some it" using Some by simp
    have q1: "Q ?w1"
      by (rule kept_own [OF k kept_now [OF k q] i1]) (simp_all add: config_of_def)
    show ?thesis
    proof (rule seq_keeps [OF s])
      fix x1 w1 e1 assume "run_on_change upd e p v ?w1 = Some (x1, w1, e1)"
      then show "Q w1" by (rule run_on_change_keeps [OF ro kept_rules [OF k] q1])
    next
      fix w1 x2 w2 e2
      assume q2: "Q w1"
        and s2: "seq (run_methods e p caller source dest w1)
                  (\<lambda>w3. seq (run_logics p w3) (run_dependents p v caller source dest)) = Some (x2, w2, e2)"
      show "Q w2"
      proof (rule seq_keeps [OF s2])
        fix x1 w1' e1 assume "run_methods e p caller source dest w1 = Some (x1, w1', e1)"
        then show "Q w1'" using run_methods_world q2 by blast
      next
        fix w3 x3 w4 e3
        assume q3: "Q w3" and s3: "seq (run_logics p w3) (run_dependents p v caller source dest) = Some (x3, w4, e3)"
        show "Q w4"
        proof (rule seq_keeps [OF s3])
          fix x1 w1' e1 assume "run_logics p w3 = Some (x1, w1', e1)"
          then show "Q w1'" by (rule run_logics_keeps [OF k q3])
        next
          fix w5 x5 w6 e5
          assume "Q w5" "run_dependents p v caller source dest w5 = Some (x5, w6, e5)"
          then show "Q w6" using run_dependents_world by blast
        qed
      qed
    qed
  qed
qed

lemma rearm_autotimer_world:
  assumes r: "rearm_autotimer e p caller w = Some (x, w', evs)" and i: "items w p = Some it"
  shows "w' = w \<or> (\<exists>atm tv vv. autotimer it = Some atm
           \<and> w' = snd (now e (put p (it\<lparr>autotimer := Some (atm\<lparr>at_time := tv, at_value := vv\<rparr>)\<rparr>) w)))"
proof (cases "autotimer it")
  case None
  with r i show ?thesis by (simp add: rearm_autotimer_def)
next
  case (Some atm)
  show ?thesis
  proof (cases "caller \<noteq> ''Autotimer'' \<and> \<not> fading it")
    case False
    with r i Some show ?thesis by (auto simp: rearm_autotimer_def)
  next
    case True
    define tm where "tm = (case autotimer_source (at_timeitem atm) of
                               None \<Rightarrow> (at_time atm, [])
                             | Some q \<Rightarrow>
                                 (case items w q of
                                    Some src \<Rightarrow> (value src, [])
                                  | None \<Rightarrow> (at_time atm, [Log WARNING ''autotimer: item does not exist''])))"
    define vl where "vl = (case autotimer_source (at_valueitem atm) of
                               None \<Rightarrow> (at_value atm, [])
                             | Some q \<Rightarrow>
                                 (case items w q of
                                    Some src \<Rightarrow>
                                      (case castvalue_to_itemtype e it (value src) (at_compat atm) of
                                         (Inr v', lg) \<Rightarrow> (v', lg)
                                       | (Inl x, lg) \<Rightarrow>
                                           (at_value atm, lg @ [Log WARNING ''autotimer: item does not exist'']))
                                  | None \<Rightarrow> (at_value atm, [Log WARNING ''autotimer: item does not exist''])))"
    have "rearm_autotimer e p caller w =
        (case now e (put p (it\<lparr>autotimer := Some (atm\<lparr>at_time := fst tm, at_value := fst vl\<rparr>)\<rparr>) w) of
           (t, w2) \<Rightarrow>
             (case num_val (fst tm) of
                None \<Rightarrow> Some (Some TypeError, w2, snd tm @ snd vl)
              | Some secs \<Rightarrow>
                  (case time_after e t secs of
                     None \<Rightarrow> Some (Some OverflowError, w2, snd tm @ snd vl)
                   | Some nxt \<Rightarrow>
                       Some (None, w2,
                         snd tm @ snd vl
                         @ [SchedulerAdd (''items.'' @ p @ ''-Timer'') (fst vl) ''Autotimer'' nxt]))))"
      using i Some True unfolding tm_def vl_def by (simp add: rearm_autotimer_def Let_def)
    with r have "w' = snd (now e (put p (it\<lparr>autotimer := Some (atm\<lparr>at_time := fst tm, at_value := fst vl\<rparr>)\<rparr>) w))"
      by (auto split: prod.splits option.splits)
    with Some show ?thesis by blast
  qed
qed

lemma rearm_autotimer_keeps:
  assumes k: "kept_by Q upd p v" and q: "Q w" and r: "rearm_autotimer e p caller w = Some (x, w', evs)"
  shows "Q w'"
proof (cases "items w p")
  case None
  with r q show ?thesis by (simp add: rearm_autotimer_def)
next
  case (Some it)
  have "Q (snd (now e (put p (it\<lparr>autotimer := Some (atm\<lparr>at_time := tv, at_value := vv\<rparr>)\<rparr>) w)))"
    if "autotimer it = Some atm" for atm tv vv
    by (rule kept_now [OF k], rule kept_own [OF k q Some]) (simp_all add: config_of_def that)
  with rearm_autotimer_world [OF r Some] q show ?thesis by auto
qed

lemma update_body_keeps:
  assumes ro: "eval_reads_only e"
    and k: "\<And>it v. items w p = Some it \<Longrightarrow> cast e (type it) v0 = Inr v \<Longrightarrow> kept_by Q upd p v"
    and q: "Q w" and r: "update_body upd e p v0 caller source dest w = Some (x, w', evs)"
  shows "Q w'"
proof (cases "items w p")
  case None
  with r q show ?thesis by (simp add: update_body_def)
next
  case (Some it)
  show ?thesis
  proof (cases "cast e (type it) v0")
    case (Inl a)
    with r Some q show ?thesis by (simp add: update_body_def)
  next
    case (Inr v)
    note kb = k [OF Some Inr]
    obtain ch w1 e1 where c: "commit e p v caller source w = (ch, w1, e1)"
      by (cases "commit e p v caller source w") auto
    from r Some Inr c
    have s: "seq (Some (None, w1, e1))
               (\<lambda>w2. seq (run_on_update upd e p v w2)
                  (\<lambda>w3. seq (change_path upd e p v caller source dest ch w3)
                     (\<lambda>w4. seq (write_cache e p ch w4) (rearm_autotimer e p caller))))
             = Some (x, w', evs)"
      by (simp add: update_body_def)
    show ?thesis
    proof (rule seq_keeps [OF s])
      fix x1 w1' e1' assume "Some (None, w1, e1) = Some (x1, w1', e1')"
      then have "w1' = w1" by simp
      then show "Q w1'" using commit_keeps [OF kb q c] by simp
    next
      fix w2 x2 w3 e2
      assume q2: "Q w2"
        and s2: "seq (run_on_update upd e p v w2)
                  (\<lambda>w3. seq (change_path upd e p v caller source dest ch w3)
                     (\<lambda>w4. seq (write_cache e p ch w4) (rearm_autotimer e p caller))) = Some (x2, w3, e2)"
      show "Q w3"
      proof (rule seq_keeps [OF s2])
        fix x1 w1' e1' assume "run_on_update upd e p v w2 = Some (x1, w1', e1')"
        then show "Q w1'" by (rule run_on_update_keeps [OF ro kept_rules [OF kb] q2])
      next
        fix w4 x4 w5 e4
        assume q4: "Q w4"
          and s4: "seq (change_path upd e p v caller source dest ch w4)
                     (\<lambda>w4. seq (write_cache e p ch w4) (rearm_autotimer e p caller)) = Some (x4, w5, e4)"
        show "Q w5"
        proof (rule seq_keeps [OF s4])
          fix x1 w1' e1' assume "change_path upd e p v caller source dest ch w4 = Some (x1, w1', e1')"
          then show "Q w1'" by (rule change_path_keeps [OF ro kb q4])
        next
          fix w6 x6 w7 e6
          assume q6: "Q w6"
            and s6: "seq (write_cache e p ch w6) (rearm_autotimer e p caller) = Some (x6, w7, e6)"
          show "Q w7"
          proof (rule seq_keeps [OF s6])
            fix x1 w1' e1' assume "write_cache e p ch w6 = Some (x1, w1', e1')"
            then show "Q w1'" using write_cache_world q6 by blast
          next
            fix w8 x8 w9 e8
            assume "Q w8" "rearm_autotimer e p caller w8 = Some (x8, w9, e8)"
            then show "Q w9" by (rule rearm_autotimer_keeps [OF kb])
          qed
        qed
      qed
    qed
  qed
qed

section \<open>The configuration is kept\<close>

lemma same_config_refl: "same_config w w"
  by (simp add: same_config_def)

lemma same_config_trans: "same_config a b \<Longrightarrow> same_config b c \<Longrightarrow> same_config a c"
  by (simp add: same_config_def)

lemma same_config_tick: "same_config w w1 \<Longrightarrow> same_config w (w1\<lparr>tick := n\<rparr>)"
  by (simp add: same_config_def)

lemma same_config_at:
  "same_config w w' \<Longrightarrow> map_option config_of (items w' q) = map_option config_of (items w q)"
  by (simp add: same_config_def)

lemma same_config_put:
  assumes s: "same_config w w1" and i: "items w1 p = Some it" and c: "config_of it' = config_of it"
  shows "same_config w (put p it' w1)"
  unfolding same_config_def
proof
  fix q
  show "map_option config_of (items (put p it' w1) q) = map_option config_of (items w q)"
  proof (cases "q = p")
    case True
    have a: "map_option config_of (items w p) = map_option config_of (items w1 p)"
      using same_config_at [OF s, of p] by (rule sym)
    show ?thesis unfolding True
      by (simp only: a i items_put fun_upd_same option.map c)
  next
    case False
    then show ?thesis using same_config_at [OF s, of q] by simp
  qed
qed

lemma same_config_item:
  assumes s: "same_config w w'" and i: "items w p = Some it"
  shows "\<exists>it'. items w' p = Some it' \<and> config_of it' = config_of it"
proof -
  have "map_option config_of (items w' p) = Some (config_of it)"
    using same_config_at [OF s, of p] by (simp only: i option.map)
  then show ?thesis by (cases "items w' p") simp_all
qed

lemma same_config_item_back:
  assumes s: "same_config w w'" and i: "items w' p = Some it'"
  shows "\<exists>it. items w p = Some it \<and> config_of it' = config_of it"
proof -
  have "map_option config_of (items w p) = Some (config_of it')"
    using same_config_at [OF s, of p] by (simp only: i option.map)
  then show ?thesis by (cases "items w p") auto
qed

lemma config_fields:
  assumes "config_of a = config_of b"
  shows "path a = path b" "type a = type b" "enforce_updates a = enforce_updates b" "eval a = eval b"
    "on_update a = on_update b" "on_update_dest_var a = on_update_dest_var b"
    "on_change a = on_change b" "on_change_dest_var a = on_change_dest_var b"
    "change_logger a = change_logger b" "log_change_logger a = log_change_logger b"
    "methods_to_trigger a = methods_to_trigger b" "logics_to_trigger a = logics_to_trigger b"
    "threshold a = threshold b" "th_low a = th_low b" "th_high a = th_high b"
    "items_to_trigger a = items_to_trigger b" "cache a = cache b"
    "(autotimer a = None) = (autotimer b = None)"
proof -
  have f: "sel (config_of a) = sel (config_of b)" for sel :: "item \<Rightarrow> 'x"
    using assms by simp
  show "path a = path b" using f [of path] by (simp add: config_of_def)
  show "type a = type b" using f [of type] by (simp add: config_of_def)
  show "enforce_updates a = enforce_updates b" using f [of enforce_updates] by (simp add: config_of_def)
  show "eval a = eval b" using f [of eval] by (simp add: config_of_def)
  show "on_update a = on_update b" using f [of on_update] by (simp add: config_of_def)
  show "on_update_dest_var a = on_update_dest_var b" using f [of on_update_dest_var] by (simp add: config_of_def)
  show "on_change a = on_change b" using f [of on_change] by (simp add: config_of_def)
  show "on_change_dest_var a = on_change_dest_var b" using f [of on_change_dest_var] by (simp add: config_of_def)
  show "change_logger a = change_logger b" using f [of change_logger] by (simp add: config_of_def)
  show "log_change_logger a = log_change_logger b" using f [of log_change_logger] by (simp add: config_of_def)
  show "methods_to_trigger a = methods_to_trigger b" using f [of methods_to_trigger] by (simp add: config_of_def)
  show "logics_to_trigger a = logics_to_trigger b" using f [of logics_to_trigger] by (simp add: config_of_def)
  show "threshold a = threshold b" using f [of threshold] by (simp add: config_of_def)
  show "th_low a = th_low b" using f [of th_low] by (simp add: config_of_def)
  show "th_high a = th_high b" using f [of th_high] by (simp add: config_of_def)
  show "items_to_trigger a = items_to_trigger b" using f [of items_to_trigger] by (simp add: config_of_def)
  show "cache a = cache b" using f [of cache] by (simp add: config_of_def)
  show "(autotimer a = None) = (autotimer b = None)" using f [of autotimer] by (cases "autotimer a"; cases "autotimer b") (simp_all add: config_of_def)
qed

lemma same_config_kept:
  assumes "\<And>q v0 c s d w1 x w2 evs. upd q v0 c s d w1 = Some (x, w2, evs) \<Longrightarrow> same_config w1 w2"
  shows "kept_by (same_config w) upd p v"
  unfolding kept_by_def kept_by_rules_def
proof (intro conjI allI impI)
  fix w1 n assume "same_config w w1"
  then show "same_config w (w1\<lparr>tick := n\<rparr>)" by (rule same_config_tick)
next
  fix w1 and it it' :: item
  assume "same_config w w1" "items w1 p = Some it" "config_of it' = config_of it"
  then show "same_config w (put p it' w1)" by (rule same_config_put)
next
  fix w1 wa it d dv a x w' evs
  assume "same_config w w1" and "upd d dv a (Some p) None w1 = Some (x, w', evs)"
  then show "same_config w w'" using assms same_config_trans by blast
qed

lemma update_same_config:
  "eval_reads_only e \<Longrightarrow> update n e p v0 c s d w = Some (x, w', evs) \<Longrightarrow> same_config w w'"
proof (induction n arbitrary: p v0 c s d w x w' evs)
  case 0
  then show ?case by simp
next
  case (Suc n)
  from Suc.prems have r: "update_body (update n e) e p v0 c s d w = Some (x, w', evs)" by simp
  have k: "kept_by (same_config w) (update n e) p v" for v
    by (rule same_config_kept) (rule Suc.IH [OF Suc.prems(1)])
  show ?case
    by (rule update_body_keeps [where Q = "same_config w", OF Suc.prems(1) k same_config_refl r])
qed

section \<open>No item is set to None\<close>












section \<open>An item that no rule writes is left alone by the updates of other items\<close>

lemma no_writer_same_config:
  assumes s: "same_config w w'" and n: "no_writer t w"
  shows "no_writer t w'"
  unfolding no_writer_def
proof (intro allI impI)
  fix q it' assume "items w' q = Some it'"
  from same_config_item_back [OF s this]
  obtain it where i: "items w q = Some it" and c: "config_of it' = config_of it" by blast
  from n i have "t \<notin> set (on_update_dest_var it) \<and> t \<notin> set (on_change_dest_var it)"
    unfolding no_writer_def by blast
  then show "t \<notin> set (on_update_dest_var it') \<and> t \<notin> set (on_change_dest_var it')"
    using config_fields(6) [OF c] config_fields(8) [OF c] by simp
qed

lemma frame_kept_rules:
  assumes ro: "eval_reads_only e" and nw: "no_writer t w"
    and sc: "\<And>q v0 c s d w1 x w2 evs. upd q v0 c s d w1 = Some (x, w2, evs) \<Longrightarrow> same_config w1 w2"
    and fr: "\<And>q v0 c s d w1 x w2 evs. no_writer t w1 \<Longrightarrow> q \<noteq> t
                \<Longrightarrow> upd q v0 c s d w1 = Some (x, w2, evs) \<Longrightarrow> items w2 t = items w1 t"
  shows "kept_by_rules (\<lambda>w1. same_config w w1 \<and> items w1 t = items w t) upd p"
  unfolding kept_by_rules_def
proof (intro allI impI)
  fix w1 wa it dd dv a x1 w2 evs1
  assume q1: "same_config w w1 \<and> items w1 t = items w t"
    and qa: "same_config w wa \<and> items wa t = items w t" and ia: "items wa p = Some it"
    and dd: "dd \<in> set (on_update_dest_var it) \<union> set (on_change_dest_var it)"
    and u: "upd dd dv a (Some p) None w1 = Some (x1, w2, evs1)"
  from qa have "no_writer t wa" using no_writer_same_config nw by blast
  with ia dd have ne: "dd \<noteq> t" unfolding no_writer_def by blast
  from q1 have nw1: "no_writer t w1" using no_writer_same_config nw by blast
  from fr [OF nw1 ne u] have "items w2 t = items w1 t" .
  moreover from sc [OF u] q1 have "same_config w w2"
    using same_config_trans by blast
  ultimately show "same_config w w2 \<and> items w2 t = items w t" using q1 by simp
qed

lemma update_frame:
  "eval_reads_only e \<Longrightarrow> no_writer t w \<Longrightarrow> p \<noteq> t
     \<Longrightarrow> update n e p v0 c s d w = Some (x, w', evs) \<Longrightarrow> items w' t = items w t"
proof (induction n arbitrary: p v0 c s d w x w' evs)
  case 0
  then show ?case by simp
next
  case (Suc n)
  note ro = Suc.prems(1)
  from Suc.prems have r: "update_body (update n e) e p v0 c s d w = Some (x, w', evs)" by simp
  define Q where "Q = (\<lambda>w1. same_config w w1 \<and> items w1 t = items w t)"
  have kr: "kept_by_rules Q (update n e) p"
    unfolding Q_def
    by (rule frame_kept_rules [OF ro Suc.prems(2)]) (use update_same_config [OF ro] Suc.IH [OF ro] in blast)+
  have k: "kept_by Q (update n e) p v" for v
    unfolding kept_by_def
  proof (intro conjI allI impI)
    fix w1 m assume "Q w1"
    then show "Q (w1\<lparr>tick := m\<rparr>)" by (simp add: Q_def same_config_tick)
  next
    fix w1 and it it' :: item
    assume "Q w1" "items w1 p = Some it" "config_of it' = config_of it"
    then show "Q (put p it' w1)" using Suc.prems(3) by (simp add: Q_def same_config_put)
  next
    show "kept_by_rules Q (update n e) p" by (rule kr)
  qed
  have "Q w"
    by (simp add: Q_def same_config_refl)
  have "Q w'"
    by (rule update_body_keeps [where Q = Q, OF ro k \<open>Q w\<close> r])
  then show ?case by (simp add: Q_def)
qed

section \<open>Properties of \<open>__call__\<close>\<close>




section \<open>What the steps of an update do\<close>

lemma doings_append: "doings (xs @ ys) = doings xs @ doings ys"
  by (simp add: doings_def)

lemma doings_simps:
  "doings [] = []"
  "doings (Log l msg # evs) = doings evs"
  "doings (NotifyAll q # evs) = doings evs"
  "doings (UpdateCall q v a src es # evs) = doings evs"
  "doings (ItemCall q v a es # evs) = doings evs"
  "doings (RuleRun q a dd ex # evs) = RuleRun q a dd ex # doings evs"
  "doings (MethodCall m q c s d # evs) = MethodCall m q c s d # doings evs"
  "doings (LogicTrigger g q v # evs) = LogicTrigger g q v # doings evs"
  "doings (Trigger nm v c s d # evs) = Trigger nm v c s d # doings evs"
  "doings (CacheWrite f v # evs) = CacheWrite f v # doings evs"
  "doings (SchedulerAdd nm v c t # evs) = SchedulerAdd nm v c t # doings evs"
  by (simp_all add: doings_def)

lemma of_doings:
  "rule_runs a (doings evs) = rule_runs a evs"
  "method_calls (doings evs) = method_calls evs"
  "logic_triggers (doings evs) = logic_triggers evs"
  "cache_writes (doings evs) = cache_writes evs"
  "scheduler_adds (doings evs) = scheduler_adds evs"
  "dispatches (doings evs) = dispatches evs"
proof -
  show "rule_runs a (doings evs) = rule_runs a evs"
    by (induction evs) (simp_all add: doings_def rule_runs_def split: event.splits)
  show "method_calls (doings evs) = method_calls evs"
    by (induction evs) (simp_all add: doings_def method_calls_def split: event.splits)
  show "logic_triggers (doings evs) = logic_triggers evs"
    by (induction evs) (simp_all add: doings_def logic_triggers_def split: event.splits)
  show "cache_writes (doings evs) = cache_writes evs"
    by (induction evs) (simp_all add: doings_def cache_writes_def split: event.splits)
  show "scheduler_adds (doings evs) = scheduler_adds evs"
    by (induction evs) (simp_all add: doings_def scheduler_adds_def split: event.splits)
  show "dispatches (doings evs) = dispatches evs"
    by (induction evs) (simp_all add: doings_def dispatches_def split: event.splits)
qed

lemma trace_append:
  "rule_runs a (xs @ ys) = rule_runs a xs @ rule_runs a ys"
  "method_calls (xs @ ys) = method_calls xs @ method_calls ys"
  "logic_triggers (xs @ ys) = logic_triggers xs @ logic_triggers ys"
  "cache_writes (xs @ ys) = cache_writes xs @ cache_writes ys"
  "scheduler_adds (xs @ ys) = scheduler_adds xs @ scheduler_adds ys"
  "dispatches (xs @ ys) = dispatches xs @ dispatches ys"
  by (simp_all add: rule_runs_def method_calls_def logic_triggers_def cache_writes_def
      scheduler_adds_def dispatches_def)

lemma trace_Nil:
  "rule_runs a [] = []" "method_calls [] = []" "logic_triggers [] = []" "cache_writes [] = []"
  "scheduler_adds [] = []" "dispatches [] = []"
  by (simp_all add: rule_runs_def method_calls_def logic_triggers_def cache_writes_def
      scheduler_adds_def dispatches_def)

lemma trace_rules:
  "rule_runs a (map (\<lambda>r. RuleRun p attr (fst r) (snd r)) rs) = (if a = attr then rs else [])"
  "method_calls (map (\<lambda>r. RuleRun p attr (fst r) (snd r)) rs) = []"
  "logic_triggers (map (\<lambda>r. RuleRun p attr (fst r) (snd r)) rs) = []"
  "cache_writes (map (\<lambda>r. RuleRun p attr (fst r) (snd r)) rs) = []"
  "scheduler_adds (map (\<lambda>r. RuleRun p attr (fst r) (snd r)) rs) = []"
  "dispatches (map (\<lambda>r. RuleRun p attr (fst r) (snd r)) rs) = []"
  by (induction rs)
    (simp_all add: rule_runs_def method_calls_def logic_triggers_def cache_writes_def
      scheduler_adds_def dispatches_def)

lemma trace_methods:
  "rule_runs a (map (\<lambda>m. MethodCall m p c s d) ms) = []"
  "method_calls (map (\<lambda>m. MethodCall m p c s d) ms) = ms"
  "logic_triggers (map (\<lambda>m. MethodCall m p c s d) ms) = []"
  "cache_writes (map (\<lambda>m. MethodCall m p c s d) ms) = []"
  "scheduler_adds (map (\<lambda>m. MethodCall m p c s d) ms) = []"
  "dispatches (map (\<lambda>m. MethodCall m p c s d) ms) = []"
  by (induction ms)
    (simp_all add: rule_runs_def method_calls_def logic_triggers_def cache_writes_def
      scheduler_adds_def dispatches_def)

lemma trace_logics:
  "rule_runs a (map (\<lambda>g. LogicTrigger g p v) gs) = []"
  "method_calls (map (\<lambda>g. LogicTrigger g p v) gs) = []"
  "logic_triggers (map (\<lambda>g. LogicTrigger g p v) gs) = gs"
  "cache_writes (map (\<lambda>g. LogicTrigger g p v) gs) = []"
  "scheduler_adds (map (\<lambda>g. LogicTrigger g p v) gs) = []"
  "dispatches (map (\<lambda>g. LogicTrigger g p v) gs) = []"
  by (induction gs)
    (simp_all add: rule_runs_def method_calls_def logic_triggers_def cache_writes_def
      scheduler_adds_def dispatches_def)

lemma trace_dependents:
  "rule_runs a (map (\<lambda>q. Trigger q v c s d) qs) = []"
  "method_calls (map (\<lambda>q. Trigger q v c s d) qs) = []"
  "logic_triggers (map (\<lambda>q. Trigger q v c s d) qs) = []"
  "cache_writes (map (\<lambda>q. Trigger q v c s d) qs) = []"
  "scheduler_adds (map (\<lambda>q. Trigger q v c s d) qs) = []"
  "dispatches (map (\<lambda>q. Trigger q v c s d) qs) = qs"
  by (induction qs)
    (simp_all add: rule_runs_def method_calls_def logic_triggers_def cache_writes_def
      scheduler_adds_def dispatches_def)

lemma trace_one:
  "rule_runs a [CacheWrite f v] = []" "method_calls [CacheWrite f v] = []"
  "logic_triggers [CacheWrite f v] = []" "cache_writes [CacheWrite f v] = [(f, v)]"
  "scheduler_adds [CacheWrite f v] = []" "dispatches [CacheWrite f v] = []"
  "rule_runs a [SchedulerAdd nm v c t] = []" "method_calls [SchedulerAdd nm v c t] = []"
  "logic_triggers [SchedulerAdd nm v c t] = []" "cache_writes [SchedulerAdd nm v c t] = []"
  "scheduler_adds [SchedulerAdd nm v c t] = [(nm, v, c, t)]" "dispatches [SchedulerAdd nm v c t] = []"
  by (simp_all add: rule_runs_def method_calls_def logic_triggers_def cache_writes_def
      scheduler_adds_def dispatches_def)

lemma seq_normal:
  assumes "seq r f = Some (None, w', evs)"
  shows "\<exists>w1 e1 e2. r = Some (None, w1, e1) \<and> f w1 = Some (None, w', e2) \<and> evs = e1 @ e2"
  using seq_SomeD [OF assms] by auto

lemma commit_doings: "commit e p v c s w = (ch, w1, e1) \<Longrightarrow> doings e1 = []"
  by (auto simp: commit_def Let_def doings_simps split: option.splits if_splits prod.splits)

lemma doings_entered: "doings (rule_entered p attr d ex) = [RuleRun p attr d ex]"
  by (simp add: rule_entered_def doings_simps doings_append)

lemma run_on_xxx_doings:
  assumes ro: "eval_reads_only e" and r: "run_on_xxx upd e p v d ex attr w = Some (x, w', evs)"
  shows "doings evs = [RuleRun p attr d ex]"
proof -
  obtain res where ev: "py_eval e w p ex v = (res, w, [])"
    using eval_world [OF ro] by blast
  show ?thesis
    using r ev
    by (cases res)
      (auto simp: run_on_xxx_def doings_append doings_entered doings_simps
        split: if_splits option.splits)
qed

lemma run_rules_doings:
  assumes ro: "eval_reads_only e"
  shows "run_rules upd e p v attr rs w = Some (None, w', evs)
     \<Longrightarrow> doings evs = map (\<lambda>r. RuleRun p attr (fst r) (snd r)) rs"
proof (induction rs arbitrary: w w' evs)
  case Nil
  then show ?case by (simp add: doings_simps)
next
  case (Cons r rs)
  from Cons.prems
  have "seq (run_on_xxx upd e p v (fst r) (snd r) attr w) (run_rules upd e p v attr rs) = Some (None, w', evs)"
    by simp
  from seq_normal [OF this] obtain w1 e1 e2 where
    a: "run_on_xxx upd e p v (fst r) (snd r) attr w = Some (None, w1, e1)"
    and b: "run_rules upd e p v attr rs w1 = Some (None, w', e2)" and c: "evs = e1 @ e2"
    by blast
  show ?case
    unfolding c doings_append run_on_xxx_doings [OF ro a] Cons.IH [OF b] by simp
qed

lemma run_methods_doings:
  assumes "items w p = Some it" and "run_methods e p c s d w = Some (x, w', evs)"
  shows "doings evs = map (\<lambda>m. MethodCall m p c s d) (methods_to_trigger it)"
proof -
  have "doings (concat (map (\<lambda>m. MethodCall m p c s d
            # (if method_raises e m it c then [Log ERROR ''__update: problem running method''] else []))
          ms)) = map (\<lambda>m. MethodCall m p c s d) ms" for ms
    by (induction ms) (simp_all add: doings_simps doings_append)
  with assms show ?thesis by (auto simp: run_methods_def)
qed

lemma run_logics_result:
  assumes i: "items w p = Some it" and r: "run_logics p w = Some (None, w', evs)"
  shows "evs = (if logics_to_trigger it \<noteq> [] \<and> (threshold it \<longrightarrow> crossing it (value it))
                then trigger_logics it else [])
         \<and> w' = (if logics_to_trigger it \<noteq> [] \<and> threshold it \<and> crossing it (value it)
                 then put p (it\<lparr>th_crossed := \<not> th_crossed it\<rparr>) w else w)"
  using r i
  by (auto simp: run_logics_def crossing_def trigger_logics_def
      split: if_splits option.splits bool.splits)

lemma run_dependents_result:
  assumes "items w p = Some it" and "run_dependents p v c s d w = Some (x, w', evs)"
  shows "evs = map (\<lambda>q. Trigger q v c s d) (items_to_trigger it) \<and> w' = w \<and> x = None"
  using assms by (auto simp: run_dependents_def)

lemma write_cache_result:
  assumes "items w p = Some it" and "write_cache e p ch w = Some (x, w', evs)"
  shows "doings evs = (case cache it of None \<Rightarrow> []
                       | Some file \<Rightarrow> if ch \<and> file \<noteq> [] \<and> \<not> fading it then [CacheWrite file (value it)] else [])
         \<and> w' = w \<and> x = None"
  using assms by (auto simp: write_cache_def doings_simps split: option.splits if_splits)

lemma castvalue_logs: "castvalue_to_itemtype e it v cmpt = (r, lg) \<Longrightarrow> doings lg = []"
  by (auto simp: castvalue_to_itemtype_def doings_simps split: sum.splits pyval.splits if_splits)

lemma rearm_autotimer_armed:
  assumes i: "items w p = Some it" and a: "autotimer it = Some atm"
    and c: "caller \<noteq> ''Autotimer''" and f: "\<not> fading it"
  shows "\<exists>tv vv lg1 lg2. doings lg1 = [] \<and> doings lg2 = []
    \<and> rearm_autotimer e p caller w =
        (case now e (put p (it\<lparr>autotimer := Some (atm\<lparr>at_time := tv, at_value := vv\<rparr>)\<rparr>) w) of
           (t, w2) \<Rightarrow>
             (case num_val tv of
                None \<Rightarrow> Some (Some TypeError, w2, lg1 @ lg2)
              | Some secs \<Rightarrow>
                  (case time_after e t secs of
                     None \<Rightarrow> Some (Some OverflowError, w2, lg1 @ lg2)
                   | Some nxt \<Rightarrow>
                       Some (None, w2,
                         lg1 @ lg2 @ [SchedulerAdd (''items.'' @ p @ ''-Timer'') vv ''Autotimer'' nxt]))))"
proof -
  define tm where "tm = (case autotimer_source (at_timeitem atm) of
                             None \<Rightarrow> (at_time atm, [])
                           | Some q \<Rightarrow>
                               (case items w q of
                                  Some src \<Rightarrow> (value src, [])
                                | None \<Rightarrow> (at_time atm, [Log WARNING ''autotimer: item does not exist''])))"
  define vl where "vl = (case autotimer_source (at_valueitem atm) of
                             None \<Rightarrow> (at_value atm, [])
                           | Some q \<Rightarrow>
                               (case items w q of
                                  Some src \<Rightarrow>
                                    (case castvalue_to_itemtype e it (value src) (at_compat atm) of
                                       (Inr v', lg) \<Rightarrow> (v', lg)
                                     | (Inl x, lg) \<Rightarrow>
                                         (at_value atm, lg @ [Log WARNING ''autotimer: item does not exist'']))
                                | None \<Rightarrow> (at_value atm, [Log WARNING ''autotimer: item does not exist''])))"
  have r: "rearm_autotimer e p caller w =
      (case now e (put p (it\<lparr>autotimer := Some (atm\<lparr>at_time := fst tm, at_value := fst vl\<rparr>)\<rparr>) w) of
         (t, w2) \<Rightarrow>
           (case num_val (fst tm) of
              None \<Rightarrow> Some (Some TypeError, w2, snd tm @ snd vl)
            | Some secs \<Rightarrow>
                (case time_after e t secs of
                   None \<Rightarrow> Some (Some OverflowError, w2, snd tm @ snd vl)
                 | Some nxt \<Rightarrow>
                     Some (None, w2,
                       snd tm @ snd vl
                       @ [SchedulerAdd (''items.'' @ p @ ''-Timer'') (fst vl) ''Autotimer'' nxt]))))"
    using i a c f unfolding tm_def vl_def by (simp add: rearm_autotimer_def Let_def)
  have dt: "doings (snd tm) = []"
    unfolding tm_def by (simp add: doings_simps split: option.splits)
  have dv: "doings (snd vl) = []"
    unfolding vl_def
    by (auto simp: doings_simps doings_append split: option.splits prod.splits sum.splits
        dest: castvalue_logs)
  from r dt dv show ?thesis by blast
qed

lemma rearm_autotimer_idle:
  assumes "items w p = Some it" and "autotimer it = None \<or> caller = ''Autotimer'' \<or> fading it"
  shows "rearm_autotimer e p caller w = Some (None, w, [])"
  using assms by (auto simp: rearm_autotimer_def split: option.splits)

lemma rearm_autotimer_result:
  assumes i: "items w p = Some it" and r: "rearm_autotimer e p caller w = Some (None, w', evs)"
  shows "(autotimer it \<noteq> None \<and> caller \<noteq> ''Autotimer'' \<and> \<not> fading it
            \<longrightarrow> (\<exists>vv nxt. doings evs = [SchedulerAdd (''items.'' @ p @ ''-Timer'') vv ''Autotimer'' nxt]))
         \<and> (autotimer it = None \<or> caller = ''Autotimer'' \<or> fading it \<longrightarrow> evs = [] \<and> w' = w)
         \<and> (\<exists>it'. items w' p = Some it' \<and> fading it' = fading it \<and> value it' = value it
                \<and> th_crossed it' = th_crossed it \<and> config_of it' = config_of it)"
proof (cases "autotimer it = None \<or> caller = ''Autotimer'' \<or> fading it")
  case True
  from rearm_autotimer_idle [OF i True] r have "evs = []" "w' = w" by simp_all
  with True i show ?thesis by auto
next
  case False
  then obtain atm where a: "autotimer it = Some atm" and c: "caller \<noteq> ''Autotimer''" and f: "\<not> fading it"
    by auto
  from rearm_autotimer_armed [OF i a c f, of e]
  obtain tv vv lg1 lg2 where d: "doings lg1 = []" "doings lg2 = []"
    and u: "rearm_autotimer e p caller w =
        (case now e (put p (it\<lparr>autotimer := Some (atm\<lparr>at_time := tv, at_value := vv\<rparr>)\<rparr>) w) of
           (t, w2) \<Rightarrow>
             (case num_val tv of
                None \<Rightarrow> Some (Some TypeError, w2, lg1 @ lg2)
              | Some secs \<Rightarrow>
                  (case time_after e t secs of
                     None \<Rightarrow> Some (Some OverflowError, w2, lg1 @ lg2)
                   | Some nxt \<Rightarrow>
                       Some (None, w2,
                         lg1 @ lg2 @ [SchedulerAdd (''items.'' @ p @ ''-Timer'') vv ''Autotimer'' nxt]))))"
    by blast
  let ?it' = "it\<lparr>autotimer := Some (atm\<lparr>at_time := tv, at_value := vv\<rparr>)\<rparr>"
  from r u obtain nxt where
    e: "evs = lg1 @ lg2 @ [SchedulerAdd (''items.'' @ p @ ''-Timer'') vv ''Autotimer'' nxt]"
    and w: "w' = snd (now e (put p ?it' w))"
    by (auto split: prod.splits option.splits)
  have 1: "doings evs = [SchedulerAdd (''items.'' @ p @ ''-Timer'') vv ''Autotimer'' nxt]"
    unfolding e by (simp add: doings_append d doings_simps)
  have 2: "items w' p = Some ?it'"
    unfolding w by simp
  have 3: "config_of ?it' = config_of it"
    using a by (simp add: config_of_def)
  from 1 2 3 False show ?thesis by auto
qed

lemma commit_result:
  assumes i: "items w p = Some it" and c: "commit e p v caller source w = (ch, w1, e1)"
  shows "ch = (\<not> py_eq v (value it))
         \<and> (\<exists>it1. items w1 = (items w)(p \<mapsto> it1) \<and> config_of it1 = config_of it
               \<and> value it1 = (if ch then v else value it)
               \<and> fading it1 = (if ch \<and> caller \<noteq> ''fader'' then False else fading it)
               \<and> th_crossed it1 = th_crossed it)"
  using i c
  by (auto simp: commit_def Let_def now_def put_def config_of_def split: if_splits prod.splits)

lemma change_path_idle:
  assumes "items w p = Some it" and "\<not> (ch \<or> enforce_updates it \<or> type it = TScene)"
  shows "change_path upd e p v c s d ch w = Some (None, w, [])"
  using assms by (simp add: change_path_def)

lemma change_path_phases:
  assumes i: "items w p = Some it" and t: "ch \<or> enforce_updates it \<or> type it = TScene"
    and r: "change_path upd e p v c s d ch w = Some (None, w', evs)"
  shows "\<exists>w2 e1 e2 e3 e4.
           run_on_change upd e p v
               (put p (it\<lparr>prev_update := last_update it, last_update := fst (now e w)\<rparr>) (snd (now e w)))
             = Some (None, w2, e1)
           \<and> run_methods e p c s d w2 = Some (None, w2, e2)
           \<and> run_logics p w2 = Some (None, w', e3)
           \<and> run_dependents p v c s d w' = Some (None, w', e4)
           \<and> evs = e1 @ e2 @ e3 @ e4"
proof -
  let ?w1 = "put p (it\<lparr>prev_update := last_update it, last_update := fst (now e w)\<rparr>) (snd (now e w))"
  from r i t
  have s: "seq (run_on_change upd e p v ?w1)
             (\<lambda>w2. seq (run_methods e p c s d w2)
                (\<lambda>w3. seq (run_logics p w3) (run_dependents p v c s d)))
           = Some (None, w', evs)"
    by (simp add: change_path_def now_def split: prod.splits)
  from seq_normal [OF s] obtain w2 e1 r1 where
    a: "run_on_change upd e p v ?w1 = Some (None, w2, e1)"
    and s2: "seq (run_methods e p c s d w2) (\<lambda>w3. seq (run_logics p w3) (run_dependents p v c s d))
              = Some (None, w', r1)"
    and e: "evs = e1 @ r1"
    by blast
  from seq_normal [OF s2] obtain w3 e2 r2 where
    b: "run_methods e p c s d w2 = Some (None, w3, e2)"
    and s3: "seq (run_logics p w3) (run_dependents p v c s d) = Some (None, w', r2)"
    and e': "r1 = e2 @ r2"
    by blast
  from run_methods_world [OF b] have w3: "w3 = w2" by simp
  from seq_normal [OF s3] obtain w4 e3 e4 where
    c: "run_logics p w3 = Some (None, w4, e3)"
    and d: "run_dependents p v c s d w4 = Some (None, w', e4)"
    and e'': "r2 = e3 @ e4"
    by blast
  from run_dependents_world [OF d] have w4: "w4 = w'" by simp
  from a b c d e e' e'' w3 w4 show ?thesis by auto
qed

lemma update_phases:
  assumes i: "items w p = Some it" and cv: "cast e (type it) v0 = Inr v"
    and r: "update_body upd e p v0 c s d w = Some (None, w', evs)"
  shows "\<exists>ch w1 e1 w2 e2 w3 e3 e4 e5.
           commit e p v c s w = (ch, w1, e1)
           \<and> run_on_update upd e p v w1 = Some (None, w2, e2)
           \<and> change_path upd e p v c s d ch w2 = Some (None, w3, e3)
           \<and> write_cache e p ch w3 = Some (None, w3, e4)
           \<and> rearm_autotimer e p c w3 = Some (None, w', e5)
           \<and> evs = e1 @ e2 @ e3 @ e4 @ e5"
proof -
  obtain ch w1 e1 where c: "commit e p v c s w = (ch, w1, e1)"
    by (cases "commit e p v c s w") auto
  from r i cv c
  have s: "seq (Some (None, w1, e1))
             (\<lambda>w2. seq (run_on_update upd e p v w2)
                (\<lambda>w3. seq (change_path upd e p v c s d ch w3)
                   (\<lambda>w4. seq (write_cache e p ch w4) (rearm_autotimer e p c))))
           = Some (None, w', evs)"
    by (simp add: update_body_def)
  from seq_normal [OF s] obtain r1 where
    s1: "seq (run_on_update upd e p v w1)
                (\<lambda>w3. seq (change_path upd e p v c s d ch w3)
                   (\<lambda>w4. seq (write_cache e p ch w4) (rearm_autotimer e p c))) = Some (None, w', r1)"
    and e: "evs = e1 @ r1"
    by auto
  from seq_normal [OF s1] obtain w2 e2 r2 where
    a: "run_on_update upd e p v w1 = Some (None, w2, e2)"
    and s2: "seq (change_path upd e p v c s d ch w2)
                   (\<lambda>w4. seq (write_cache e p ch w4) (rearm_autotimer e p c)) = Some (None, w', r2)"
    and e': "r1 = e2 @ r2"
    by blast
  from seq_normal [OF s2] obtain w3 e3 r3 where
    b: "change_path upd e p v c s d ch w2 = Some (None, w3, e3)"
    and s3: "seq (write_cache e p ch w3) (rearm_autotimer e p c) = Some (None, w', r3)"
    and e'': "r2 = e3 @ r3"
    by blast
  from seq_normal [OF s3] obtain w4 e4 e5 where
    f: "write_cache e p ch w3 = Some (None, w4, e4)"
    and g: "rearm_autotimer e p c w4 = Some (None, w', e5)"
    and e''': "r3 = e4 @ e5"
    by blast
  from write_cache_world [OF f] have w4: "w4 = w3" by simp
  from c a b f g e e' e'' e''' w4 show ?thesis by auto
qed

lemma rules_keep_config:
  assumes ro: "eval_reads_only e"
  shows "kept_by_rules (same_config w) (update n e) p"
  by (rule kept_rules [OF same_config_kept [where v = PNone]]) (rule update_same_config [OF ro])

lemma rules_keep_item:
  assumes ro: "eval_reads_only e" and nw: "no_writer t w"
  shows "kept_by_rules (\<lambda>w1. same_config w w1 \<and> items w1 t = items w t) (update n e) p"
proof (rule frame_kept_rules [OF ro nw])
  fix q v0 c s d w1 x w2 evs
  assume "update n e q v0 c s d w1 = Some (x, w2, evs)"
  then show "same_config w1 w2" by (rule update_same_config [OF ro])
next
  fix q v0 c s d w1 x w2 evs
  assume "no_writer t w1" "q \<noteq> t" "update n e q v0 c s d w1 = Some (x, w2, evs)"
  then show "items w2 t = items w1 t" by (rule update_frame [OF ro])
qed

lemma run_on_update_trace:
  assumes ro: "eval_reads_only e" and i: "items w p = Some it"
    and r: "run_on_update (update n e) e p v w = Some (None, w', evs)"
  shows "doings evs = map (\<lambda>r. RuleRun p ''on_update'' (fst r) (snd r))
                          (rules_of (on_update_dest_var it) (on_update it))"
    and "same_config w w'"
    and "no_writer p w \<Longrightarrow> items w' p = items w p"
proof -
  from r i show "doings evs = map (\<lambda>r. RuleRun p ''on_update'' (fst r) (snd r))
                          (rules_of (on_update_dest_var it) (on_update it))"
    by (simp add: run_on_update_def run_rules_doings [OF ro])
  show "same_config w w'"
    by (rule run_on_update_keeps [where Q = "same_config w", OF ro rules_keep_config [OF ro] same_config_refl r])
  assume nw: "no_writer p w"
  have "same_config w w' \<and> items w' p = items w p"
    by (rule run_on_update_keeps [where Q = "\<lambda>w1. same_config w w1 \<and> items w1 p = items w p",
          OF ro rules_keep_item [OF ro nw] _ r]) (simp add: same_config_refl)
  then show "items w' p = items w p" by simp
qed

lemma run_on_change_trace:
  assumes ro: "eval_reads_only e" and i: "items w p = Some it"
    and r: "run_on_change (update n e) e p v w = Some (None, w', evs)"
  shows "doings evs = map (\<lambda>r. RuleRun p ''on_change'' (fst r) (snd r))
                          (rules_of (on_change_dest_var it) (on_change it))"
    and "same_config w w'"
    and "no_writer p w \<Longrightarrow> items w' p = items w p"
proof -
  from r i show "doings evs = map (\<lambda>r. RuleRun p ''on_change'' (fst r) (snd r))
                          (rules_of (on_change_dest_var it) (on_change it))"
    by (simp add: run_on_change_def run_rules_doings [OF ro])
  show "same_config w w'"
    by (rule run_on_change_keeps [where Q = "same_config w", OF ro rules_keep_config [OF ro] same_config_refl r])
  assume nw: "no_writer p w"
  have "same_config w w' \<and> items w' p = items w p"
    by (rule run_on_change_keeps [where Q = "\<lambda>w1. same_config w w1 \<and> items w1 p = items w p",
          OF ro rules_keep_item [OF ro nw] _ r]) (simp add: same_config_refl)
  then show "items w' p = items w p" by simp
qed

lemma doings_logics: "doings (trigger_logics it) = trigger_logics it"
proof -
  have "doings (map (\<lambda>l. LogicTrigger l q v) ls) = map (\<lambda>l. LogicTrigger l q v) ls" for q v ls
    by (induction ls) (simp_all add: doings_simps)
  then show ?thesis by (simp add: trigger_logics_def)
qed

lemma doings_dependents: "doings (map (\<lambda>q. Trigger q v c s d) qs) = map (\<lambda>q. Trigger q v c s d) qs"
  by (induction qs) (simp_all add: doings_simps)

lemma crossing_cong:
  "config_of a = config_of b \<Longrightarrow> th_crossed a = th_crossed b \<Longrightarrow> crossing a v = crossing b v"
  using config_fields(14) [of a b] config_fields(15) [of a b] by (simp add: crossing_def)

lemma change_path_taken:
  assumes ro: "eval_reads_only e" and i: "items w p = Some it"
    and t: "ch \<or> enforce_updates it \<or> type it = TScene"
    and r: "change_path (update n e) e p v c s d ch w = Some (None, w', evs)"
  shows "\<exists>itl it'.
      items w' p = Some it' \<and> config_of it' = config_of it \<and> config_of itl = config_of it
      \<and> value it' = value itl \<and> fading it' = fading itl
      \<and> th_crossed it' = (if logics_to_trigger it \<noteq> [] \<and> threshold it \<and> crossing itl (value itl)
                           then \<not> th_crossed itl else th_crossed itl)
      \<and> (no_writer p w \<longrightarrow> value itl = value it \<and> fading itl = fading it \<and> th_crossed itl = th_crossed it)
      \<and> doings evs =
          map (\<lambda>r. RuleRun p ''on_change'' (fst r) (snd r)) (rules_of (on_change_dest_var it) (on_change it))
          @ map (\<lambda>m. MethodCall m p c s d) (methods_to_trigger it)
          @ (if logics_to_trigger it \<noteq> [] \<and> (threshold it \<longrightarrow> crossing itl (value itl))
             then trigger_logics itl else [])
          @ map (\<lambda>q. Trigger q v c s d) (items_to_trigger it)"
proof -
  let ?it0 = "it\<lparr>prev_update := last_update it, last_update := fst (now e w)\<rparr>"
  let ?w1 = "put p ?it0 (snd (now e w))"
  from change_path_phases [OF i t r] obtain w2 e1 e2 e3 e4 where
    a: "run_on_change (update n e) e p v ?w1 = Some (None, w2, e1)"
    and b: "run_methods e p c s d w2 = Some (None, w2, e2)"
    and l: "run_logics p w2 = Some (None, w', e3)"
    and dp: "run_dependents p v c s d w' = Some (None, w', e4)"
    and ev: "evs = e1 @ e2 @ e3 @ e4"
    by blast
  have c0: "config_of ?it0 = config_of it" by (simp add: config_of_def)
  have i1: "items ?w1 p = Some ?it0" by simp
  have i1': "items (snd (now e w)) p = Some it" using i by simp
  have sc1: "same_config w ?w1"
    by (rule same_config_put [OF _ i1' c0]) (simp add: now_def same_config_tick same_config_refl)
  note tr = run_on_change_trace [OF ro i1 a]
  from same_config_item [OF tr(2) i1] obtain itl where
    i2: "items w2 p = Some itl" and c2: "config_of itl = config_of ?it0"
    by blast
  from c2 c0 have cl: "config_of itl = config_of it" by simp
  have fr: "value itl = value it \<and> fading itl = fading it \<and> th_crossed itl = th_crossed it"
    if nw: "no_writer p w"
  proof -
    from no_writer_same_config [OF sc1 nw] have "no_writer p ?w1" .
    from tr(3) [OF this] i1 i2 have "itl = ?it0" by simp
    then show ?thesis by simp
  qed
  have d1: "doings e1 = map (\<lambda>r. RuleRun p ''on_change'' (fst r) (snd r))
                          (rules_of (on_change_dest_var it) (on_change it))"
    using tr(1) by simp
  have d2: "doings e2 = map (\<lambda>m. MethodCall m p c s d) (methods_to_trigger it)"
    using run_methods_doings [OF i2 b] config_fields(11) [OF cl] by simp
  note lr = run_logics_result [OF i2 l]
  have lg: "logics_to_trigger itl = logics_to_trigger it" and th: "threshold itl = threshold it"
    using config_fields(12) [OF cl] config_fields(13) [OF cl] by simp_all
  have d3: "doings e3 = (if logics_to_trigger it \<noteq> [] \<and> (threshold it \<longrightarrow> crossing itl (value itl))
             then trigger_logics itl else [])"
    using lr lg th by (simp add: doings_logics doings_simps)
  define it' where "it' = (if logics_to_trigger it \<noteq> [] \<and> threshold it \<and> crossing itl (value itl)
                           then itl\<lparr>th_crossed := \<not> th_crossed itl\<rparr> else itl)"
  have i3: "items w' p = Some it'"
    using lr lg th i2 by (simp add: it'_def)
  have c3: "config_of it' = config_of it"
    using cl by (simp add: it'_def config_of_def)
  have d4: "doings e4 = map (\<lambda>q. Trigger q v c s d) (items_to_trigger it)"
    using run_dependents_result [OF i3 dp] config_fields(16) [OF c3] by (simp add: doings_dependents)
  have f3: "value it' = value itl" "fading it' = fading itl"
    "th_crossed it' = (if logics_to_trigger it \<noteq> [] \<and> threshold it \<and> crossing itl (value itl)
                           then \<not> th_crossed itl else th_crossed itl)"
    by (simp_all add: it'_def)
  have "doings evs =
          map (\<lambda>r. RuleRun p ''on_change'' (fst r) (snd r)) (rules_of (on_change_dest_var it) (on_change it))
          @ map (\<lambda>m. MethodCall m p c s d) (methods_to_trigger it)
          @ (if logics_to_trigger it \<noteq> [] \<and> (threshold it \<longrightarrow> crossing itl (value itl))
             then trigger_logics itl else [])
          @ map (\<lambda>q. Trigger q v c s d) (items_to_trigger it)"
    unfolding ev doings_append d1 d2 d3 d4 ..
  with i3 c3 cl f3 fr show ?thesis by blast
qed

end
